theory Spec2Isabelle
  imports Main "HOL-Library.Word"
begin

unbundle bit_operations_syntax

section \<open>Machine types and the frame store\<close>

text \<open>
  The target is an 8-bit AVR built with avr-gcc: \<open>uint8_t\<close> is \<open>8 word\<close>,
  \<open>uint16_t\<close> (and the promoted \<open>int\<close>, once it is stored into or combined with a
  \<open>uint16_t\<close>) is \<open>16 word\<close>, \<open>uint64_t\<close> is \<open>64 word\<close>. An expression on
  \<open>uint8_t\<close> operands that C evaluates in \<open>int\<close> and stores back into a \<open>uint8_t\<close>
  is written on \<open>8 word\<close>: truncation commutes with \<open>+\<close>, \<open>-\<close>, \<open>AND\<close>, \<open>OR\<close> and
  \<open>NOT\<close>.

  A \<open>uint16_t *\<close> is an address counted in words, and the memory it points into is a
  function from addresses to words, so that \<open>src\<close> and \<open>dst\<close> of \<open>life\<close> may alias.
\<close>

type_synonym u8 = "8 word"
type_synonym u16 = "16 word"
type_synonym u64 = "64 word"
type_synonym mem = "nat \<Rightarrow> u16"

section \<open>The automaton engine: \<open>life\<close>\<close>

definition DEAD :: u8 where "DEAD = 0"
definition STEADY :: u8 where "STEADY = 1"
definition ACTIVE :: u8 where "ACTIVE = 2"

text \<open>\<open>!!(src[c] & (3 << s))\<close>\<close>

definition neighbor :: "mem \<Rightarrow> nat \<Rightarrow> u8 \<Rightarrow> u8 \<Rightarrow> u8" where
  "neighbor m src c s = (if m (src + unat c) AND push_bit (unat s) 3 \<noteq> 0 then 1 else 0)"

definition neighbors :: "mem \<Rightarrow> nat \<Rightarrow> u8 \<Rightarrow> u8 \<Rightarrow> u8" where
  "neighbors m src i j =
     (let L = (i - 1) AND 0x07; R = (i + 1) AND 0x07;
          U = (j - 2) AND 0x0F; D = (j + 2) AND 0x0F
      in neighbor m src L U + neighbor m src L j + neighbor m src L D
       + neighbor m src i U + neighbor m src i D
       + neighbor m src R U + neighbor m src R j + neighbor m src R D)"

definition nextstate :: "u8 \<Rightarrow> u8 \<Rightarrow> u8" where
  "nextstate curstate n =
     (if curstate \<noteq> 0 then
        (if n < 2 \<or> n > 3 then 0
         else if curstate = 1 then 3
         else 2)
      else if n = 3 then 1
      else 0)"

text \<open>The body of the inner loop: one cell of column \<open>i\<close>, at bit offset \<open>j\<close>.\<close>

definition life_cell :: "nat \<Rightarrow> nat \<Rightarrow> u8 \<Rightarrow> u8 \<Rightarrow> mem \<Rightarrow> mem" where
  "life_cell src dst i j m =
     (let curstate = (ucast (drop_bit (unat j) (m (src + unat i)) AND 0x03) :: u8);
          ns = nextstate curstate (neighbors m src i j);
          m1 = m(dst + unat i := m (dst + unat i) AND NOT (push_bit (unat j) 3));
          m2 = m1(dst + unat i := m1 (dst + unat i) OR push_bit (unat j) (ucast ns))
      in m2)"

text \<open>\<open>for(j = 0; j < 16; j += 2)\<close>\<close>

function life_rows :: "nat \<Rightarrow> nat \<Rightarrow> u8 \<Rightarrow> u8 \<Rightarrow> mem \<Rightarrow> mem" where
  "life_rows src dst i j m =
     (if j < 16 then life_rows src dst i (j + 2) (life_cell src dst i j m) else m)"
  by pat_completeness auto
termination
  by (relation "measure (\<lambda>(src, dst, i, j, m). 16 - unat j)")
     (simp_all add: unat_word_ariths word_less_nat_alt)

declare life_rows.simps [simp del]

text \<open>The state of the outer loop: the memory, \<open>ret\<close> and \<open>deadcols\<close>.\<close>

definition life_col :: "nat \<Rightarrow> nat \<Rightarrow> u8 \<Rightarrow> mem \<times> u8 \<times> u8 \<Rightarrow> mem \<times> u8 \<times> u8" where
  "life_col src dst i s =
     (case s of (m, ret, deadcols) \<Rightarrow>
        let m' = life_rows src dst i 0 m;
            colstate = (if m' (dst + unat i) = 0 then DEAD
                        else if m' (dst + unat i) = m' (src + unat i) then STEADY
                        else ACTIVE);
            deadcols' = (if colstate = DEAD then deadcols + 1 else deadcols);
            ret' = (if colstate > ret then colstate else ret)
        in (m', ret', deadcols'))"

text \<open>\<open>for(i = 0; i < 8; ++i)\<close>\<close>

function life_cols :: "nat \<Rightarrow> nat \<Rightarrow> u8 \<Rightarrow> mem \<times> u8 \<times> u8 \<Rightarrow> mem \<times> u8 \<times> u8" where
  "life_cols src dst i s =
     (if i < 8 then life_cols src dst (i + 1) (life_col src dst i s) else s)"
  by pat_completeness auto
termination
  by (relation "measure (\<lambda>(src, dst, i, s). 8 - unat i)")
     (simp_all add: unat_word_ariths word_less_nat_alt)

declare life_cols.simps [simp del]

text \<open>\<open>life(src, dst)\<close> returns the memory it leaves and its return value.\<close>

definition life :: "nat \<Rightarrow> nat \<Rightarrow> mem \<Rightarrow> mem \<times> u8" where
  "life src dst m =
     (case life_cols src dst 0 (m, DEAD, 0) of (m', ret, deadcols) \<Rightarrow>
        (m', if deadcols = 7 then STEADY else ret))"

subsection \<open>The automaton rule as the specification words it\<close>

text \<open>
  A generation is the 8 words at \<open>base\<close>; the cell in column \<open>c\<close>, row \<open>r\<close> is the 2-bit
  value at bit offset \<open>2 * r\<close> of word \<open>c\<close>: 0 dead, 1 green, 2 red, 3 orange.
\<close>

definition cell :: "mem \<Rightarrow> nat \<Rightarrow> nat \<Rightarrow> nat \<Rightarrow> nat" where
  "cell m base c r = unat (drop_bit (2 * r) (m (base + c)) AND 3)"

text \<open>The 8 neighbours on the closed torus: row and column indices wrap modulo 8.\<close>

definition torus_neighbours :: "nat \<Rightarrow> nat \<Rightarrow> (nat \<times> nat) list" where
  "torus_neighbours c r =
     [((c + 7) mod 8, (r + 7) mod 8), ((c + 7) mod 8, r), ((c + 7) mod 8, (r + 1) mod 8),
      (c, (r + 7) mod 8), (c, (r + 1) mod 8),
      ((c + 1) mod 8, (r + 7) mod 8), ((c + 1) mod 8, r), ((c + 1) mod 8, (r + 1) mod 8)]"

definition live_neighbours :: "mem \<Rightarrow> nat \<Rightarrow> nat \<Rightarrow> nat \<Rightarrow> nat" where
  "live_neighbours m base c r =
     length (filter (\<lambda>(c', r'). cell m base c' r' \<noteq> 0) (torus_neighbours c r))"

definition life_rule :: "nat \<Rightarrow> nat \<Rightarrow> nat" where
  "life_rule cur n =
     (if cur \<noteq> 0 then (if n = 2 \<or> n = 3 then (if cur = 1 then 3 else 2) else 0)
      else (if n = 3 then 1 else 0))"

text \<open>Two 8-word generations that do not overlap.\<close>

definition disjoint8 :: "nat \<Rightarrow> nat \<Rightarrow> bool" where
  "disjoint8 src dst = (src + 8 \<le> dst \<or> dst + 8 \<le> src)"

subsection \<open>Auxiliary functions for the loop invariants\<close>

text \<open>
  The value the inner loop computes for one cell, the read-modify-write it does on the
  destination word, and the destination word once the inner loop has run.
\<close>

definition cell_next :: "mem \<Rightarrow> nat \<Rightarrow> u8 \<Rightarrow> u8 \<Rightarrow> u8" where
  "cell_next m src i j =
     nextstate (ucast (drop_bit (unat j) (m (src + unat i)) AND 3)) (neighbors m src i j)"

definition put_cell :: "u8 \<Rightarrow> u8 \<Rightarrow> u16 \<Rightarrow> u16" where
  "put_cell j v w = (w AND NOT (push_bit (unat j) 3)) OR push_bit (unat j) (ucast v)"

definition new_col :: "mem \<Rightarrow> nat \<Rightarrow> nat \<Rightarrow> u8 \<Rightarrow> u16" where
  "new_col m src dst i =
     fold (\<lambda>j. put_cell j (cell_next m src i j)) [0, 2, 4, 6, 8, 10, 12, 14] (m (dst + unat i))"

definition colstate :: "u16 \<Rightarrow> u16 \<Rightarrow> u8" where
  "colstate d s = (if d = 0 then DEAD else if d = s then STEADY else ACTIVE)"

definition lv :: "mem \<Rightarrow> nat \<Rightarrow> nat \<Rightarrow> nat \<Rightarrow> nat" where
  "lv m base c r = (if cell m base c r \<noteq> 0 then 1 else 0)"

definition cols8 :: "u8 list" where "cols8 = [0, 1, 2, 3, 4, 5, 6, 7]"

text \<open>A glider of red cells in columns 1 to 3, used as a concrete board.\<close>

definition glider :: mem where
  "glider = (\<lambda>a. if a = 1 then 0x0020 else if a = 2 then 0x0080 else if a = 3 then 0x00A8 else 0)"


subsection \<open>Generations and the activity classification\<close>

text \<open>The 8 column words of the generation at \<open>base\<close>.\<close>

definition gen :: "mem \<Rightarrow> nat \<Rightarrow> u16 list" where
  "gen m base = map (\<lambda>c. m (base + c)) [0..<8]"

text \<open>
  The classification as the specification words it: DEAD when every new column is zero,
  STEADY when every new column equals the source column or at least 7 new columns are zero,
  ACTIVE otherwise.
\<close>

definition spec_classify :: "u16 list \<Rightarrow> u16 list \<Rightarrow> u8" where
  "spec_classify old new =
     (if list_all (\<lambda>w. w = 0) new then DEAD
      else if new = old \<or> 7 \<le> length (filter (\<lambda>w. w = 0) new) then STEADY
      else ACTIVE)"

text \<open>
  The classification the loop computes: a new column that is zero counts as dead whatever
  the source column was, so the result is STEADY as soon as every new column is zero or
  equal to its source column.
\<close>

definition life_classify :: "u16 list \<Rightarrow> u16 list \<Rightarrow> u8" where
  "life_classify old new =
     (if list_all (\<lambda>w. w = 0) new then DEAD
      else if list_all2 (\<lambda>a b. a = 0 \<or> a = b) new old \<or> 7 \<le> length (filter (\<lambda>w. w = 0) new)
      then STEADY
      else ACTIVE)"

text \<open>The two accumulators of the outer loop, as functions of the column state.\<close>

definition ret_step :: "u8 \<Rightarrow> u8 \<Rightarrow> u8" where
  "ret_step s r = (if s > r then s else r)"

definition dead_step :: "u8 \<Rightarrow> u8 \<Rightarrow> u8" where
  "dead_step s d = (if s = DEAD then d + 1 else d)"

text \<open>Concrete boards: the empty board, a 2x2 block of red cells (a still life), the block
  with a lone red cell in column 5, and a horizontal blinker.\<close>

definition zero_mem :: mem where "zero_mem = (\<lambda>a. 0)"

definition block :: mem where
  "block = (\<lambda>a. if a = 1 then 0x0028 else if a = 2 then 0x0028 else 0)"

definition block_dot :: mem where
  "block_dot = (\<lambda>a. if a = 1 then 0x0028 else if a = 2 then 0x0028 else if a = 5 then 0x0800 else 0)"

definition blinker :: mem where
  "blinker = (\<lambda>a. if a = 2 then 0x0020 else if a = 3 then 0x0020 else if a = 4 then 0x0020 else 0)"


section \<open>The button state machine: \<open>GetButtons\<close>\<close>

definition BUTTON_LEFT :: u8 where "BUTTON_LEFT = 0x01"
definition BUTTON_RIGHT :: u8 where "BUTTON_RIGHT = 0x02"
definition BUTTON_HOLD :: u8 where "BUTTON_HOLD = 0x10"
definition REPEAT_THRESHOLD :: u8 where "REPEAT_THRESHOLD = 20"

text \<open>The two static locals of \<open>GetButtons\<close>, and their initial values.\<close>

record buttons =
  prevState :: u8
  repeat :: u8

definition buttons_init :: buttons where
  "buttons_init = \<lparr>prevState = 0xff, repeat = 0\<rparr>"

text \<open>\<open>(PINC & 0x30) >> 4\<close>: the two button lines, 3 when no button is down.\<close>

definition curState_of :: "u8 \<Rightarrow> u8" where
  "curState_of PINC = drop_bit 4 (PINC AND 0x30)"

text \<open>
  One call: the value of \<open>PINC\<close> it reads and the statics before, the returned event and
  the statics after. \<open>~prevState & curState\<close> and \<open>BUTTON_HOLD | ~(curState & 3)\<close> are
  evaluated in \<open>int\<close> and truncated to \<open>uint8_t\<close> on return.
\<close>

definition GetButtons :: "u8 \<Rightarrow> buttons \<Rightarrow> u8 \<times> buttons" where
  "GetButtons PINC st =
     (let curState = curState_of PINC in
      if repeat st \<ge> REPEAT_THRESHOLD then
        (0, st\<lparr>prevState := curState, repeat := (if curState = 3 then 0 else repeat st)\<rparr>)
      else if curState \<noteq> prevState st then
        (let pressed = NOT (prevState st) AND curState
         in (pressed, st\<lparr>prevState := curState\<rparr>))
      else if curState \<noteq> 3 then
        (if repeat st + 1 = REPEAT_THRESHOLD
         then (BUTTON_HOLD OR NOT (curState AND 3), st\<lparr>repeat := repeat st + 1\<rparr>)
         else (0, st\<lparr>repeat := repeat st + 1\<rparr>))
      else (0, st))"

text \<open>A sequence of polls: the values of \<open>PINC\<close> read, the events returned in order.\<close>

fun polls :: "buttons \<Rightarrow> u8 list \<Rightarrow> u8 list \<times> buttons" where
  "polls st [] = ([], st)"
| "polls st (p # ps) =
     (case GetButtons p st of (e, st') \<Rightarrow>
        (case polls st' ps of (es, st'') \<Rightarrow> (e # es, st'')))"

section \<open>The quote picker of \<open>hello_world\<close>\<close>

text \<open>
  The \<open>for(;;)\<close> loop that looks for an unused index: it returns when the bit of \<open>r\<close> is
  set in the mask and runs forever on a mask that is zero, so it is a partial function;
  \<open>None\<close> is not returning.
\<close>

partial_function (option) pick_loop :: "u64 \<Rightarrow> u8 \<Rightarrow> u8 option" where
  "pick_loop maskus r =
     (if maskus AND push_bit (unat r) 1 \<noteq> 0 then Some r
      else pick_loop maskus ((r + 1) AND 63))"

declare pick_loop.simps [code]

text \<open>
  The picker: \<open>rnd\<close> is the byte the first \<open>badrand()\<close> returns and \<open>maskus\<close> the static
  mask before the call; the result is the index \<open>r\<close> passed to \<open>string_table\<close> and the mask
  after the call. The colour and the calls that draw the text do not touch the mask.
\<close>

definition hello_world_pick :: "u8 \<Rightarrow> u64 \<Rightarrow> (u8 \<times> u64) option" where
  "hello_world_pick rnd maskus =
     (let r = rnd AND 63;
          maskus1 = (if maskus = 0 then NOT 0 else maskus)
      in case pick_loop maskus1 r of
           None \<Rightarrow> None
         | Some r' \<Rightarrow> Some (r', maskus1 AND NOT (push_bit (unat r') 1)))"

text \<open>Consecutive calls of \<open>hello_world\<close>, one random byte each.\<close>

fun picks :: "u64 \<Rightarrow> u8 list \<Rightarrow> (u8 list \<times> u64) option" where
  "picks maskus [] = Some ([], maskus)"
| "picks maskus (rnd # rnds) =
     (case hello_world_pick rnd maskus of
        None \<Rightarrow> None
      | Some (r, maskus') \<Rightarrow>
          (case picks maskus' rnds of
             None \<Rightarrow> None
           | Some (rs, maskus'') \<Rightarrow> Some (r # rs, maskus'')))"

text \<open>The indices whose bit is still set in the mask.\<close>

definition unused :: "u64 \<Rightarrow> nat set" where
  "unused m = {k. bit m k}"

section \<open>The column scanner: \<open>ISR(TIMER0_COMPA_vect)\<close>\<close>

text \<open>
  The interrupt talks to the display through PORTC (bit 0 serial data, bit 1 shift clock,
  bit 2 latch) and PORTD (the column drivers). Its state is the two port registers and the
  static \<open>col\<close>; every write to a port is recorded, in order, so that what the shift
  registers see can be read off the record.
\<close>

datatype port_write = WriteC u8 | WriteD u8

record scanner =
  PORTC :: u8
  PORTD :: u8
  col :: u8
  writes :: "port_write list"

definition set_PORTC :: "u8 \<Rightarrow> scanner \<Rightarrow> scanner" where
  "set_PORTC v s = s\<lparr>PORTC := v, writes := writes s @ [WriteC v]\<rparr>"

definition set_PORTD :: "u8 \<Rightarrow> scanner \<Rightarrow> scanner" where
  "set_PORTD v s = s\<lparr>PORTD := v, writes := writes s @ [WriteD v]\<rparr>"

definition LATCH_0 :: "scanner \<Rightarrow> scanner" where "LATCH_0 s = set_PORTC (PORTC s AND NOT 0x04) s"
definition LATCH_1 :: "scanner \<Rightarrow> scanner" where "LATCH_1 s = set_PORTC (PORTC s OR 0x04) s"
definition SCK_0 :: "scanner \<Rightarrow> scanner" where "SCK_0 s = set_PORTC (PORTC s AND NOT 0x02) s"
definition SCK_1 :: "scanner \<Rightarrow> scanner" where "SCK_1 s = set_PORTC (PORTC s OR 0x02) s"
definition DATA_0 :: "scanner \<Rightarrow> scanner" where "DATA_0 s = set_PORTC (PORTC s AND NOT 0x01) s"
definition DATA_1 :: "scanner \<Rightarrow> scanner" where "DATA_1 s = set_PORTC (PORTC s OR 0x01) s"

text \<open>The body of the \<open>for\<close> loop, and the loop with its counter \<open>i\<close> and \<open>c >>= 1\<close>.\<close>

definition shift_bit :: "u16 \<Rightarrow> scanner \<Rightarrow> scanner" where
  "shift_bit c s = SCK_1 ((if c AND 1 \<noteq> 0 then DATA_0 else DATA_1) (SCK_0 s))"

function shift_loop :: "u8 \<Rightarrow> u16 \<Rightarrow> scanner \<Rightarrow> scanner" where
  "shift_loop i c s = (if i < 16 then shift_loop (i + 1) (drop_bit 1 c) (shift_bit c s) else s)"
  by pat_completeness auto
termination
  by (relation "measure (\<lambda>(i, c, s). 16 - unat i)")
     (simp_all add: unat_word_ariths word_less_nat_alt)

declare shift_loop.simps [simp del]

text \<open>
  The handler, for the values of \<open>fb_base\<close> and \<open>framebuf\<close> it finds.
  \<open>(uint8_t)0x80U >> col\<close> is a logical shift of 128.
\<close>

definition TIMER0_COMPA :: "u8 \<Rightarrow> mem \<Rightarrow> scanner \<Rightarrow> scanner" where
  "TIMER0_COMPA fb_base framebuf s =
     (let fb_off = (fb_base + col s) AND 0x0F;
          c = framebuf (unat fb_off);
          s1 = LATCH_0 s;
          s2 = shift_loop 0 c s1;
          s3 = SCK_0 s2;
          s4 = set_PORTD 0 s3;
          s5 = LATCH_1 s4;
          s6 = set_PORTD (drop_bit (unat (col s)) 0x80) s5
      in s6\<lparr>col := (col s + 1) AND 7\<rparr>)"

text \<open>
  What a chain of 74HC595 shift registers makes of the writes to PORTC, given the value of
  PORTC before them: a rising edge of the shift clock shifts in the level of the data line,
  a rising edge of the latch line copies the shift register to the outputs. A write to
  PORTD drives the column lines.
\<close>

datatype bus_event = Shift bool | Latch | Column u8

fun bus_events :: "u8 \<Rightarrow> port_write list \<Rightarrow> bus_event list" where
  "bus_events p [] = []"
| "bus_events p (WriteC v # ws) =
     (if \<not> bit p 1 \<and> bit v 1 then [Shift (bit v 0)] else []) @
     (if \<not> bit p 2 \<and> bit v 2 then [Latch] else []) @ bus_events v ws"
| "bus_events p (WriteD v # ws) = Column v # bus_events p ws"

fun portc_after :: "u8 \<Rightarrow> port_write list \<Rightarrow> u8" where
  "portc_after p [] = p"
| "portc_after p (WriteC v # ws) = portc_after v ws"
| "portc_after p (WriteD v # ws) = portc_after p ws"

fun shifted :: "bus_event list \<Rightarrow> bool list" where
  "shifted [] = []"
| "shifted (Shift b # es) = b # shifted es"
| "shifted (Latch # es) = shifted es"
| "shifted (Column v # es) = shifted es"

text \<open>The bits of a column word, most significant first and least significant first.\<close>

definition msb_first :: "u16 \<Rightarrow> bool list" where
  "msb_first c = map (bit c) (rev [0..<16])"

definition lsb_first :: "u16 \<Rightarrow> bool list" where
  "lsb_first c = map (bit c) [0..<16]"

text \<open>The loop as \<open>n\<close> iterations of its body, for the induction.\<close>

primrec shift_n :: "nat \<Rightarrow> u16 \<Rightarrow> scanner \<Rightarrow> scanner" where
  "shift_n 0 c s = s"
| "shift_n (Suc n) c s = shift_n n (drop_bit 1 c) (shift_bit c s)"

text \<open>The ports as \<open>main\<close> initialises them, and a frame store with only bit 0 of column 0 set.\<close>

definition scan0 :: scanner where
  "scan0 = \<lparr>PORTC = 0xf0, PORTD = 0, col = 0, writes = []\<rparr>"

definition one_lsb :: mem where
  "one_lsb = (\<lambda>a. if a = 0 then 1 else 0)"

section \<open>Properties of \<open>life\<close>\<close>

subsection \<open>Bit fields of a column word\<close>

lemma three_mask: "(3 :: 'a::len word) = mask 2"
  by (simp add: mask_eq_exp_minus_1)

lemma upd_field:
  "r < 8 \<Longrightarrow> r' < 8 \<Longrightarrow>
   drop_bit (2 * r) ((w AND NOT (push_bit (2 * r') 3)) OR push_bit (2 * r') (v AND 3)) AND 3
     = (if r = r' then v AND 3 else drop_bit (2 * r) w AND 3)" for w v :: u16
  unfolding three_mask
  apply (rule bit_eqI)
  apply (auto simp: bit_simps)
  done

lemma nb_live: "s \<le> 14 \<Longrightarrow> (w AND push_bit s 3 \<noteq> 0) \<longleftrightarrow> (drop_bit s w AND 3 \<noteq> 0)" for w :: u16
  unfolding three_mask
  apply (auto simp: bit_eq_iff bit_simps)
  subgoal for n by (rule exI[of _ "s + n"]) simp
  done

lemma life_cell_eq:
  "life_cell src dst i j m = m(dst + unat i := put_cell j (cell_next m src i j) (m (dst + unat i)))"
  by (simp add: life_cell_def put_cell_def cell_next_def Let_def)

lemma unat_and7: "unat (x AND 7) < 8" for x :: u8
proof -
  have "x AND 7 \<le> 7" by (rule word_and_le1)
  then show ?thesis by (simp add: word_le_nat_alt)
qed

lemma neighbor_cong:
  "\<forall>k<8. m (src + k) = m' (src + k) \<Longrightarrow> unat c < 8 \<Longrightarrow> neighbor m src c s = neighbor m' src c s"
  by (simp add: neighbor_def)

lemma cell_next_cong:
  assumes "\<forall>k<8. m (src + k) = m' (src + k)" and "i < 8"
  shows "cell_next m src i j = cell_next m' src i j"
proof -
  have i: "unat i < 8" using assms(2) by (simp add: word_less_nat_alt)
  have "neighbors m src i j = neighbors m' src i j"
    unfolding neighbors_def Let_def
    using neighbor_cong[OF assms(1)] i unat_and7 by simp
  then show ?thesis using assms(1) i by (simp add: cell_next_def)
qed

lemma rows_fold:
  assumes "disjoint8 src dst" and "i < 8"
  shows "fold (life_cell src dst i) js m =
         m(dst + unat i := fold (\<lambda>j. put_cell j (cell_next m src i j)) js (m (dst + unat i)))"
proof (induction js arbitrary: m)
  case Nil
  show ?case by simp
next
  case (Cons j js)
  let ?m1 = "life_cell src dst i j m"
  have i: "unat i < 8" using assms(2) by (simp add: word_less_nat_alt)
  have agree: "\<forall>k<8. ?m1 (src + k) = m (src + k)"
    using assms(1) i by (auto simp: life_cell_eq disjoint8_def)
  have cn: "cell_next ?m1 src i j' = cell_next m src i j'" for j'
    by (rule cell_next_cong[OF agree assms(2)])
  show ?case
    by (simp add: Cons.IH cn) (auto simp: life_cell_eq fun_eq_iff)
qed

lemma life_rows_eq:
  assumes "disjoint8 src dst" and "i < 8"
  shows "life_rows src dst i 0 m = m(dst + unat i := new_col m src dst i)"
proof -
  have "life_rows src dst i 0 m = fold (life_cell src dst i) [0, 2, 4, 6, 8, 10, 12, 14] m"
    by (simp add: life_rows.simps)
  then show ?thesis
    by (simp only: rows_fold[OF assms] new_col_def)
qed

lemma unat_lt8: "i < 8 \<Longrightarrow> unat i < 8" for i :: u8
  by (simp add: word_less_nat_alt)

lemma new_col_cong:
  assumes "\<forall>k<8. m (src + k) = m' (src + k)" and "i < 8" and "m (dst + unat i) = m' (dst + unat i)"
  shows "new_col m src dst i = new_col m' src dst i"
  by (simp add: new_col_def cell_next_cong[OF assms(1,2)] assms(3))

lemma life_col_eq:
  assumes "disjoint8 src dst" and "i < 8"
  shows "life_col src dst i (m, ret, dc) =
         (m(dst + unat i := new_col m src dst i),
          (if colstate (new_col m src dst i) (m (src + unat i)) > ret
           then colstate (new_col m src dst i) (m (src + unat i)) else ret),
          (if colstate (new_col m src dst i) (m (src + unat i)) = DEAD then dc + 1 else dc))"
proof -
  have "src + unat i \<noteq> dst + unat i"
    using assms(1) by (auto simp: disjoint8_def)
  then show ?thesis
    by (simp add: life_col_def life_rows_eq[OF assms] colstate_def Let_def)
qed

lemma cols_fold:
  assumes "disjoint8 src dst" and "distinct cs" and "\<forall>i\<in>set cs. i < 8"
  shows "fold (life_col src dst) cs (m, ret, dc) =
         (fold (\<lambda>i mm. mm(dst + unat i := new_col m src dst i)) cs m,
          fold (\<lambda>i r. if colstate (new_col m src dst i) (m (src + unat i)) > r
                       then colstate (new_col m src dst i) (m (src + unat i)) else r) cs ret,
          fold (\<lambda>i d. if colstate (new_col m src dst i) (m (src + unat i)) = DEAD
                       then d + 1 else d) cs dc)"
  using assms(2,3)
proof (induction cs arbitrary: m ret dc)
  case Nil
  show ?case by simp
next
  case (Cons i cs)
  let ?m1 = "m(dst + unat i := new_col m src dst i)"
  have i: "i < 8" and iu: "unat i < 8" using Cons.prems(2) by (simp_all add: unat_lt8)
  have agree: "\<forall>k<8. ?m1 (src + k) = m (src + k)"
    using assms(1) iu by (auto simp: disjoint8_def)
  have nc: "new_col ?m1 src dst i' = new_col m src dst i'" if "i' \<in> set cs" for i'
  proof -
    have "i' \<noteq> i" and "i' < 8" using that Cons.prems by auto
    then have "?m1 (dst + unat i') = m (dst + unat i')" by (simp add: word_unat_eq_iff)
    then show ?thesis by (rule new_col_cong[OF agree \<open>i' < 8\<close>])
  qed
  have sr: "?m1 (src + unat i') = m (src + unat i')" if "i' \<in> set cs" for i'
    using agree that Cons.prems(2) by (simp add: unat_lt8)
  have pr: "distinct cs" "\<forall>i\<in>set cs. i < 8" using Cons.prems by auto
  have f1: "fold (\<lambda>i mm. mm(dst + unat i := new_col ?m1 src dst i)) cs ?m1 =
            fold (\<lambda>i mm. mm(dst + unat i := new_col m src dst i)) cs ?m1"
    by (rule fold_cong) (simp_all only: nc)
  have f2: "fold (\<lambda>i r. if colstate (new_col ?m1 src dst i) (?m1 (src + unat i)) > r
                       then colstate (new_col ?m1 src dst i) (?m1 (src + unat i)) else r) cs r =
            fold (\<lambda>i r. if colstate (new_col m src dst i) (m (src + unat i)) > r
                       then colstate (new_col m src dst i) (m (src + unat i)) else r) cs r" for r
    by (rule fold_cong) (simp_all only: nc sr)
  have f3: "fold (\<lambda>i d. if colstate (new_col ?m1 src dst i) (?m1 (src + unat i)) = DEAD
                       then d + 1 else d) cs d =
            fold (\<lambda>i d. if colstate (new_col m src dst i) (m (src + unat i)) = DEAD
                       then d + 1 else d) cs d" for d
    by (rule fold_cong) (simp_all only: nc sr)
  note IH = Cons.IH[OF pr, of ?m1, unfolded f1 f2 f3]
  show ?case
    by (simp only: fold_Cons o_apply life_col_eq[OF assms(1) i] IH)
qed

lemma lt8_cases: "n < 8 \<Longrightarrow> n \<in> {0, 1, 2, 3, 4, 5, 6, 7 :: nat}"
  by auto

lemma nextstate_le3: "ucast (nextstate c n) AND (3 :: u16) = ucast (nextstate c n)"
  by (simp add: nextstate_def)

lemma put_cell_field:
  assumes "r < 8" and "unat j = 2 * r'" and "r' < 8" and "ucast v AND (3 :: u16) = ucast v"
  shows "drop_bit (2 * r) (put_cell j v w) AND 3 = (if r = r' then ucast v else drop_bit (2 * r) w AND 3)"
proof -
  have "drop_bit (2 * r) ((w AND NOT (push_bit (2 * r') 3)) OR push_bit (2 * r') (ucast v AND 3)) AND 3
          = (if r = r' then ucast v AND 3 else drop_bit (2 * r) w AND 3)"
    by (rule upd_field[OF assms(1,3)])
  then show ?thesis
    unfolding put_cell_def assms(2) assms(4) .
qed

lemma fold_put_field:
  assumes "distinct js" and "\<forall>j\<in>set js. even (unat j) \<and> unat j < 16" and "r < 8"
    and "unat k = 2 * r"
    and "\<And>j. ucast (g j) AND (3 :: u16) = ucast (g j)"
  shows "drop_bit (2 * r) (fold (\<lambda>j. put_cell j (g j)) js w) AND 3 =
         (if k \<in> set js then ucast (g k) else drop_bit (2 * r) w AND 3)"
  using assms(1,2)
proof (induction js arbitrary: w)
  case Nil
  show ?case by simp
next
  case (Cons j js)
  define r' where "r' = unat j div 2"
  have r': "r' < 8" "unat j = 2 * r'" using Cons.prems(2) by (auto simp: r'_def)
  have pr: "distinct js" "\<forall>j\<in>set js. even (unat j) \<and> unat j < 16" "j \<notin> set js"
    using Cons.prems by auto
  have jr: "k = j \<longleftrightarrow> r = r'"
    using r'(2) assms(4) by (auto simp: word_unat_eq_iff)
  note IH = Cons.IH[OF pr(1,2), of "put_cell j (g j) w"]
  note pf = put_cell_field[OF assms(3) r'(2) r'(1) assms(5)[of j], where w=w]
  show ?case
  proof (cases "r = r'")
    case True
    then have "k = j" using jr by simp
    then show ?thesis using pr(3) IH pf True by simp
  next
    case False
    then have "k \<noteq> j" using jr by simp
    then show ?thesis using IH pf False by simp
  qed
qed

lemma new_col_field:
  assumes "r < 8" and "unat k = 2 * r"
  shows "drop_bit (2 * r) (new_col m src dst i) AND 3 = ucast (cell_next m src i k)"
proof -
  have d: "distinct [0, 2, 4, 6, 8, 10, 12, 14 :: u8]" by simp
  have e: "\<forall>j\<in>set [0, 2, 4, 6, 8, 10, 12, 14 :: u8]. even (unat j) \<and> unat j < 16"
    by simp
  have mem: "k \<in> set [0, 2, 4, 6, 8, 10, 12, 14]"
    using lt8_cases[OF assms(1)] assms(2) by (auto simp: word_unat_eq_iff)
  have le3: "ucast (cell_next m src i j) AND (3 :: u16) = ucast (cell_next m src i j)" for j
    by (simp add: cell_next_def nextstate_le3)
  show ?thesis
    unfolding new_col_def
    by (simp only: fold_put_field[OF d e assms, where g="cell_next m src i", OF le3] mem if_True)
qed

lemma unat_nextstate: "unat (nextstate c n) = life_rule (unat c) (unat n)"
  by (auto simp: nextstate_def life_rule_def word_less_nat_alt word_unat_eq_iff)

lemma unat_and3_lt: "unat (x AND 3) < 4" for x :: u16
proof -
  have "x AND 3 \<le> 3" by (rule word_and_le1)
  then show ?thesis by (simp add: word_le_nat_alt)
qed

lemma unat_cur: "unat (ucast (x AND 3 :: u16) :: u8) = unat (x AND 3)"
  using unat_and3_lt[of x] by (simp add: unsigned_ucast_eq take_bit_eq_mod unsigned_take_bit_eq)

lemma unat_neighbor:
  assumes "unat s = 2 * r" and "r < 8"
  shows "unat (neighbor m src c s) = lv m src (unat c) r"
proof -
  have "unat s \<le> 14" using assms by simp
  then show ?thesis
    by (simp add: neighbor_def lv_def cell_def nb_live assms(1) unat_0_iff)
qed

lemma unat_add_small:
  "unat a + unat b < 256 \<Longrightarrow> unat (a + b) = unat a + unat b" for a b :: u8
  using unat_add_lem[of a b] by simp

lemma lv_le: "lv m base c r \<le> 1"
  by (simp add: lv_def)

lemma length_filter_sum: "length (filter P xs) = sum_list (map (\<lambda>x. if P x then 1 else 0) xs)"
  by (induction xs) auto

lemma live_neighbours_sum:
  "live_neighbours m base c r =
     lv m base ((c + 7) mod 8) ((r + 7) mod 8) + lv m base ((c + 7) mod 8) r
   + lv m base ((c + 7) mod 8) ((r + 1) mod 8)
   + lv m base c ((r + 7) mod 8) + lv m base c ((r + 1) mod 8)
   + lv m base ((c + 1) mod 8) ((r + 7) mod 8) + lv m base ((c + 1) mod 8) r
   + lv m base ((c + 1) mod 8) ((r + 1) mod 8)"
proof -
  have "live_neighbours m base c r =
        sum_list (map (\<lambda>(c', r'). lv m base c' r') (torus_neighbours c r))"
    unfolding live_neighbours_def length_filter_sum lv_def
    by (rule arg_cong[where f = sum_list], rule map_cong) auto
  then show ?thesis
    by (simp add: torus_neighbours_def)
qed

lemma col_wrap:
  assumes "c < 8"
  shows "unat ((of_nat c - 1) AND 7 :: u8) = (c + 7) mod 8"
    and "unat ((of_nat c + 1) AND 7 :: u8) = (c + 1) mod 8"
    and "unat (of_nat c :: u8) = c"
  using lt8_cases[OF assms] by auto

lemma row_wrap:
  assumes "r < 8"
  shows "unat ((of_nat (2 * r) - 2) AND 15 :: u8) = 2 * ((r + 7) mod 8)"
    and "unat ((of_nat (2 * r) + 2) AND 15 :: u8) = 2 * ((r + 1) mod 8)"
    and "unat (of_nat (2 * r) :: u8) = 2 * r"
  using lt8_cases[OF assms] by auto

lemma unat_sum8:
  fixes a1 a2 a3 a4 a5 a6 a7 a8 :: u8
  assumes "unat a1 \<le> 1" "unat a2 \<le> 1" "unat a3 \<le> 1" "unat a4 \<le> 1"
          "unat a5 \<le> 1" "unat a6 \<le> 1" "unat a7 \<le> 1" "unat a8 \<le> 1"
  shows "unat (a1 + a2 + a3 + a4 + a5 + a6 + a7 + a8) =
         unat a1 + unat a2 + unat a3 + unat a4 + unat a5 + unat a6 + unat a7 + unat a8"
proof -
  have 2: "unat (a1 + a2) = unat a1 + unat a2"
    using assms by (intro unat_add_small) simp
  have 3: "unat (a1 + a2 + a3) = unat a1 + unat a2 + unat a3"
    using assms 2 by (subst unat_add_small) simp_all
  have 4: "unat (a1 + a2 + a3 + a4) = unat a1 + unat a2 + unat a3 + unat a4"
    using assms 3 by (subst unat_add_small) simp_all
  have 5: "unat (a1 + a2 + a3 + a4 + a5) = unat a1 + unat a2 + unat a3 + unat a4 + unat a5"
    using assms 4 by (subst unat_add_small) simp_all
  have 6: "unat (a1 + a2 + a3 + a4 + a5 + a6) =
           unat a1 + unat a2 + unat a3 + unat a4 + unat a5 + unat a6"
    using assms 5 by (subst unat_add_small) simp_all
  have 7: "unat (a1 + a2 + a3 + a4 + a5 + a6 + a7) =
           unat a1 + unat a2 + unat a3 + unat a4 + unat a5 + unat a6 + unat a7"
    using assms 6 by (subst unat_add_small) simp_all
  show ?thesis
    using assms 7 by (subst unat_add_small) simp_all
qed

lemma unat_neighbor_le: "unat (neighbor m src c s) \<le> 1"
  by (simp add: neighbor_def)

lemma unat_neighbors:
  assumes "c < 8" and "r < 8"
  shows "unat (neighbors m src (of_nat c) (of_nat (2 * r))) = live_neighbours m src c r"
proof -
  define i :: u8 where "i = of_nat c"
  define j :: u8 where "j = of_nat (2 * r)"
  have c: "unat ((i - 1) AND 7) = (c + 7) mod 8" "unat ((i + 1) AND 7) = (c + 1) mod 8" "unat i = c"
    unfolding i_def by (rule col_wrap[OF assms(1)])+
  have r: "unat ((j - 2) AND 15) = 2 * ((r + 7) mod 8)" "unat ((j + 2) AND 15) = 2 * ((r + 1) mod 8)"
      "unat j = 2 * r"
    unfolding j_def by (rule row_wrap[OF assms(2)])+
  have b: "(r + 7) mod 8 < 8" "(r + 1) mod 8 < 8" by simp_all
  have "unat (neighbors m src i j) = live_neighbours m src c r"
    unfolding neighbors_def Let_def live_neighbours_sum
    by (simp only: unat_sum8[OF unat_neighbor_le unat_neighbor_le unat_neighbor_le unat_neighbor_le
          unat_neighbor_le unat_neighbor_le unat_neighbor_le unat_neighbor_le]
        unat_neighbor[OF r(1) b(1)] unat_neighbor[OF r(2) b(2)] unat_neighbor[OF r(3) assms(2)] c)
  then show ?thesis by (simp only: i_def j_def)
qed

lemma cell_next_spec:
  assumes "c < 8" and "r < 8"
  shows "unat (cell_next m src (of_nat c) (of_nat (2 * r))) =
         life_rule (cell m src c r) (live_neighbours m src c r)"
  unfolding cell_next_def unat_nextstate unat_neighbors[OF assms] unat_cur
  by (simp only: col_wrap(3)[OF assms(1)] row_wrap(3)[OF assms(2)] cell_def)

lemma cols_unroll:
  "life_cols src dst 0 s = fold (life_col src dst) [0, 1, 2, 3, 4, 5, 6, 7] s"
  by (simp add: life_cols.simps)

lemma life_eq:
  assumes "disjoint8 src dst"
  shows "life src dst m =
     (fold (\<lambda>i mm. mm(dst + unat i := new_col m src dst i)) cols8 m,
      if fold (\<lambda>i d. if colstate (new_col m src dst i) (m (src + unat i)) = DEAD
                       then d + 1 else d) cols8 (0 :: u8) = 7
      then STEADY
      else fold (\<lambda>i r. if colstate (new_col m src dst i) (m (src + unat i)) > r
                       then colstate (new_col m src dst i) (m (src + unat i)) else r) cols8 DEAD)"
proof -
  have d: "distinct cols8" and b: "\<forall>i\<in>set cols8. i < 8" by (simp_all add: cols8_def)
  show ?thesis
    unfolding life_def cols_unroll cols8_def[symmetric] cols_fold[OF assms d b]
    by simp
qed

lemma life_mem_dst:
  assumes "disjoint8 src dst" and "c < 8"
  shows "fst (life src dst m) (dst + c) = new_col m src dst (of_nat c)"
  using lt8_cases[OF assms(2)]
  by (auto simp: life_eq[OF assms(1)] cols8_def)

lemma life_cell_spec:
  assumes "disjoint8 src dst" and "c < 8" and "r < 8"
  shows "cell (fst (life src dst m)) dst c r = life_rule (cell m src c r) (live_neighbours m src c r)"
proof -
  have k: "unat (of_nat (2 * r) :: u8) = 2 * r" by (rule row_wrap(3)[OF assms(3)])
  have "cell (fst (life src dst m)) dst c r =
        unat (ucast (cell_next m src (of_nat c) (of_nat (2 * r))) :: u16)"
    unfolding cell_def life_mem_dst[OF assms(1,2)] new_col_field[OF assms(3) k] ..
  also have "\<dots> = unat (cell_next m src (of_nat c) (of_nat (2 * r)))"
    using unsigned_less[of "cell_next m src (of_nat c) (of_nat (2 * r))", where ?'a = nat]
    by (simp add: unsigned_ucast_eq unsigned_take_bit_eq take_bit_eq_mod)
  finally show ?thesis
    by (simp only: cell_next_spec[OF assms(2,3)])
qed

subsection \<open>Frame, classification and concrete boards\<close>

lemma life_cell_frame: "a \<noteq> dst + unat i \<Longrightarrow> life_cell src dst i j m a = m a"
  by (simp add: life_cell_eq)

lemma rows_fold_frame: "a \<noteq> dst + unat i \<Longrightarrow> fold (life_cell src dst i) js m a = m a"
  by (induction js arbitrary: m) (simp_all add: life_cell_frame)

lemma rows_unroll:
  "life_rows src dst i 0 m = fold (life_cell src dst i) [0, 2, 4, 6, 8, 10, 12, 14] m"
  by (simp add: life_rows.simps)

lemma life_rows_frame:
  assumes "a \<noteq> dst + unat i"
  shows "life_rows src dst i 0 m a = m a"
  unfolding rows_unroll by (rule rows_fold_frame[OF assms])

lemma life_col_frame: "a \<noteq> dst + unat i \<Longrightarrow> fst (life_col src dst i s) a = fst s a"
  by (cases s) (simp add: life_col_def Let_def life_rows_frame)

lemma cols_fold_frame:
  "\<forall>i\<in>set cs. a \<noteq> dst + unat i \<Longrightarrow> fst (fold (life_col src dst) cs s) a = fst s a"
  by (induction cs arbitrary: s) (simp_all add: life_col_frame)

lemma life_frame:
  assumes "a \<notin> {dst ..< dst + 8}"
  shows "fst (life src dst m) a = m a"
proof -
  obtain m' r d where f: "fold (life_col src dst) cols8 (m, DEAD, 0) = (m', r, d)"
    by (cases "fold (life_col src dst) cols8 (m, DEAD, 0)")
  have "\<forall>i\<in>set cols8. a \<noteq> dst + unat i"
    using assms by (auto simp: cols8_def)
  then have "fst (fold (life_col src dst) cols8 (m, DEAD, 0)) a = m a"
    by (simp only: cols_fold_frame fst_conv)
  then have "m' a = m a" by (simp only: f fst_conv)
  then show ?thesis
    unfolding life_def cols_unroll cols8_def[symmetric] f by simp
qed

lemma life_src_unchanged:
  assumes "disjoint8 src dst" and "k < 8"
  shows "fst (life src dst m) (src + k) = m (src + k)"
  using assms by (intro life_frame) (auto simp: disjoint8_def)

lemma xor8_nat: "(n::nat) XOR 8 = (if bit n 3 then n - 8 else n + 8)"
proof -
  define k where "k = flip_bit 3 n"
  have k: "n XOR 8 = k" by (simp add: k_def flip_bit_eq_xor)
  have rt: "flip_bit 3 k = n"
    by (rule bit_eqI) (auto simp: k_def bit_flip_bit_iff)
  have kb: "bit k 3 \<longleftrightarrow> \<not> bit n 3" by (simp add: k_def bit_flip_bit_iff)
  show ?thesis
  proof (cases "bit n 3")
    case True
    then have "flip_bit 3 k = k + 8" using kb by (simp add: flip_bit_eq_if set_bit_eq)
    then show ?thesis using True rt k by simp
  next
    case False
    then have "k = n + 8" by (simp add: k_def flip_bit_eq_if set_bit_eq)
    then show ?thesis using False k by simp
  qed
qed

lemma flip_disjoint: "disjoint8 (unat fb) (unat (fb XOR 8))" for fb :: u8
proof -
  have "unat (fb XOR 8) = unat fb XOR 8" by (simp add: unsigned_xor_eq)
  moreover have "bit (unat fb) 3 \<Longrightarrow> 8 \<le> unat fb"
    using bit_iff_odd[of "unat fb" 3] by (cases "unat fb < 8") auto
  ultimately show ?thesis
    by (simp add: xor8_nat disjoint8_def)
qed

lemma upt8: "[0..<8] = [0, 1, 2, 3, 4, 5, 6, 7]"
  by (simp add: upt_rec)

lemma ret_step_max: "ret_step s r = max s r"
  by (auto simp: ret_step_def max_def)

lemma fold_ret_Max: "fold ret_step ss r = Max (set (r # ss))"
proof -
  have "ret_step = max" by (intro ext) (rule ret_step_max)
  then show ?thesis by (simp only: Max.set_eq_fold)
qed

lemma states_distinct: "DEAD < STEADY" "STEADY < ACTIVE" "DEAD < ACTIVE"
  by (simp_all add: DEAD_def STEADY_def ACTIVE_def)

lemma fold_ret:
  assumes "set ss \<subseteq> {DEAD, STEADY, ACTIVE}"
  shows "fold ret_step ss DEAD =
         (if ACTIVE \<in> set ss then ACTIVE else if STEADY \<in> set ss then STEADY else DEAD)"
proof -
  let ?A = "set (DEAD # ss)"
  have sub: "?A \<subseteq> {DEAD, STEADY, ACTIVE}" using assms by auto
  have fin: "finite ?A" by simp
  consider (a) "ACTIVE \<in> set ss" | (s) "ACTIVE \<notin> set ss" "STEADY \<in> set ss"
    | (d) "ACTIVE \<notin> set ss" "STEADY \<notin> set ss" by blast
  then have "Max ?A =
         (if ACTIVE \<in> set ss then ACTIVE else if STEADY \<in> set ss then STEADY else DEAD)"
  proof cases
    case a
    have "Max ?A = ACTIVE"
    proof (rule Max_eqI[OF fin])
      fix y assume "y \<in> ?A"
      then have "y \<in> {DEAD, STEADY, ACTIVE}" using sub by blast
      then show "y \<le> ACTIVE" using states_distinct by auto
    next
      show "ACTIVE \<in> ?A" using a by simp
    qed
    then show ?thesis using a by simp
  next
    case s
    have "Max ?A = STEADY"
    proof (rule Max_eqI[OF fin])
      fix y assume y: "y \<in> ?A"
      then have "y \<in> {DEAD, STEADY, ACTIVE}" using sub by blast
      moreover have "y \<noteq> ACTIVE" using y s(1) states_distinct by auto
      ultimately show "y \<le> STEADY" using states_distinct by auto
    next
      show "STEADY \<in> ?A" using s by simp
    qed
    then show ?thesis using s by simp
  next
    case d
    have "Max ?A = DEAD"
    proof (rule Max_eqI[OF fin])
      fix y assume y: "y \<in> ?A"
      then have "y \<in> {DEAD, STEADY, ACTIVE}" using sub by blast
      moreover have "y \<noteq> ACTIVE" "y \<noteq> STEADY" using y d states_distinct by auto
      ultimately show "y \<le> DEAD" by auto
    next
      show "DEAD \<in> ?A" by simp
    qed
    then show ?thesis using d by simp
  qed
  then show ?thesis by (simp only: fold_ret_Max)
qed

lemma fold_dead: "fold dead_step ss d = d + of_nat (length (filter (\<lambda>s. s = DEAD) ss))"
  by (induction ss arbitrary: d) (simp_all add: dead_step_def)

lemma of_nat_eq7: "n \<le> 8 \<Longrightarrow> (of_nat n :: u8) = 7 \<longleftrightarrow> n = 7"
  by (simp add: word_unat_eq_iff unat_of_nat)

lemma classify_states:
  assumes "set ss \<subseteq> {DEAD, STEADY, ACTIVE}" and "length ss = 8"
  shows "(if fold dead_step ss 0 = 7 then STEADY else fold ret_step ss DEAD) =
         (if list_all (\<lambda>s. s = DEAD) ss then DEAD
          else if list_all (\<lambda>s. s \<noteq> ACTIVE) ss \<or> 7 \<le> length (filter (\<lambda>s. s = DEAD) ss)
          then STEADY else ACTIVE)"
proof -
  let ?n = "length (filter (\<lambda>s. s = DEAD) ss)"
  have n8: "?n \<le> 8" using length_filter_le[of "\<lambda>s. s = DEAD" ss] assms(2) by simp
  have d: "fold dead_step ss 0 = 7 \<longleftrightarrow> ?n = 7"
    by (simp add: fold_dead of_nat_eq7[OF n8])
  note r = fold_ret[OF assms(1)]
  have na: "list_all (\<lambda>s. s \<noteq> ACTIVE) ss \<longleftrightarrow> ACTIVE \<notin> set ss"
    by (auto simp: list_all_iff)
  show ?thesis
  proof (cases "list_all (\<lambda>s. s = DEAD) ss")
    case True
    then have "filter (\<lambda>s. s = DEAD) ss = ss" by (simp add: list_all_iff)
    then have n: "?n = 8" using assms(2) by simp
    have "ACTIVE \<notin> set ss" "STEADY \<notin> set ss"
      using True states_distinct by (auto simp: list_all_iff)
    then show ?thesis using True n by (simp add: d r)
  next
    case False
    then obtain x where x: "x \<in> set ss" "x \<noteq> DEAD" by (auto simp: list_all_iff)
    have "?n < length ss" using x by (intro length_filter_less) auto
    then have n: "?n \<le> 7" using assms(2) by simp
    have st: "ACTIVE \<notin> set ss \<Longrightarrow> STEADY \<in> set ss"
      using x assms(1) by auto
    show ?thesis using False n st by (auto simp: d r na)
  qed
qed

lemma fields_zero:
  fixes w :: u16
  assumes "\<forall>r<8. drop_bit (2 * r) w AND 3 = 0"
  shows "w = 0"
proof (rule bit_eqI)
  fix n
  assume "possible_bit TYPE(u16) n"
  then have n: "n < 16" by (simp add: possible_bit_word)
  have "\<not> bit w n"
  proof
    assume b: "bit w n"
    have "n div 2 < 8" using n by simp
    then have z: "drop_bit (2 * (n div 2)) w AND mask 2 = 0"
      using assms by (simp add: three_mask)
    have "bit (drop_bit (2 * (n div 2)) w AND mask 2) (n mod 2)"
      using b by (simp add: bit_simps)
    then show False by (simp add: z)
  qed
  then show "bit w n = bit (0 :: u16) n" by simp
qed

lemma colstate_range: "colstate a b \<in> {DEAD, STEADY, ACTIVE}"
  by (simp add: colstate_def)

lemma colstate_simps:
  "colstate a b = DEAD \<longleftrightarrow> a = 0"
  "colstate a b \<noteq> ACTIVE \<longleftrightarrow> a = 0 \<or> a = b"
  by (simp_all add: colstate_def DEAD_def STEADY_def ACTIVE_def)

lemma gen_new:
  assumes "disjoint8 src dst"
  shows "gen (fst (life src dst m)) dst = map (new_col m src dst) cols8"
proof -
  have "gen (fst (life src dst m)) dst = map (\<lambda>c. new_col m src dst (of_nat c)) [0..<8]"
    unfolding gen_def by (rule map_cong[OF refl]) (simp add: life_mem_dst[OF assms])
  then show ?thesis by (simp add: upt8 cols8_def)
qed

lemma gen_old: "gen m src = map (\<lambda>i. m (src + unat i)) cols8"
  by (simp add: gen_def upt8 cols8_def)

lemma life_ret:
  assumes "disjoint8 src dst"
  shows "snd (life src dst m) = life_classify (gen m src) (gen (fst (life src dst m)) dst)"
proof -
  let ?f = "\<lambda>i. colstate (new_col m src dst i) (m (src + unat i))"
  let ?ss = "map ?f cols8"
  have 1: "snd (life src dst m) =
           (if fold dead_step ?ss 0 = 7 then STEADY else fold ret_step ?ss DEAD)"
  proof -
    have d: "dead_step = (\<lambda>s d. if s = DEAD then d + 1 else d)"
      and r: "ret_step = (\<lambda>s r. if s > r then s else r)"
      by (intro ext, simp add: dead_step_def ret_step_def)+
    show ?thesis
      by (simp add: life_eq[OF assms] fold_map o_def d r)
  qed
  have 2: "set ?ss \<subseteq> {DEAD, STEADY, ACTIVE}" using colstate_range by auto
  have 3: "length ?ss = 8" by (simp add: cols8_def)
  have 4: "list_all (\<lambda>s. s = DEAD) ?ss \<longleftrightarrow> list_all (\<lambda>w. w = 0) (map (new_col m src dst) cols8)"
    by (simp add: list_all_iff colstate_simps)
  have 5: "list_all (\<lambda>s. s \<noteq> ACTIVE) ?ss \<longleftrightarrow>
           list_all2 (\<lambda>a b. a = 0 \<or> a = b) (map (new_col m src dst) cols8)
             (map (\<lambda>i. m (src + unat i)) cols8)"
    by (simp add: list_all_iff colstate_simps list_all2_map1 list_all2_map2 list_all2_same)
  have 6: "length (filter (\<lambda>s. s = DEAD) ?ss) =
           length (filter (\<lambda>w. w = 0) (map (new_col m src dst) cols8))"
    by (simp add: filter_map o_def colstate_simps)
  have 7: "life_classify (gen m src) (gen (fst (life src dst m)) dst) =
           life_classify (map (\<lambda>i. m (src + unat i)) cols8) (map (new_col m src dst) cols8)"
    by (subst gen_new[OF assms]) (simp only: gen_old)
  have "snd (life src dst m) =
        life_classify (map (\<lambda>i. m (src + unat i)) cols8) (map (new_col m src dst) cols8)"
    unfolding 1 classify_states[OF 2 3] 4 5 6 life_classify_def ..
  then show ?thesis by (simp only: 7)
qed

lemma cell_next_dead:
  assumes "\<forall>k<8. m (src + k) = 0" and "i < 8"
  shows "cell_next m src i j = 0"
proof -
  have "\<forall>k<8. m (src + k) = (\<lambda>_. 0 :: u16) (src + k)" using assms(1) by simp
  then have "cell_next m src i j = cell_next (\<lambda>_. 0) src i j"
    using assms(2) by (rule cell_next_cong)
  also have "\<dots> = 0"
    by (simp add: cell_next_def neighbors_def neighbor_def nextstate_def)
  finally show ?thesis .
qed

lemma new_col_dead:
  assumes "\<forall>k<8. m (src + k) = 0" and "i < 8"
  shows "new_col m src dst i = 0"
proof (rule fields_zero, intro allI impI)
  fix r :: nat
  assume r: "r < 8"
  have k: "unat (of_nat (2 * r) :: u8) = 2 * r" by (rule row_wrap(3)[OF r])
  show "drop_bit (2 * r) (new_col m src dst i) AND 3 = 0"
    by (simp only: new_col_field[OF r k] cell_next_dead[OF assms]) simp
qed

lemma life_all_dead:
  assumes "disjoint8 src dst" and "\<forall>k<8. m (src + k) = 0"
  shows "gen (fst (life src dst m)) dst = replicate 8 0" and "snd (life src dst m) = DEAD"
proof -
  have "map (new_col m src dst) cols8 = map (\<lambda>_. 0) cols8"
    by (rule map_cong[OF refl]) (auto simp: cols8_def intro!: new_col_dead[OF assms(2)])
  then show g: "gen (fst (life src dst m)) dst = replicate 8 0"
    by (simp add: gen_new[OF assms(1)] cols8_def eval_nat_numeral)
  show "snd (life src dst m) = DEAD"
    unfolding life_ret[OF assms(1)] g by (simp add: life_classify_def list_all_iff)
qed

lemmas life_eval = new_col_def cell_next_def put_cell_def neighbors_def neighbor_def
  nextstate_def Let_def cols8_def

lemma d08: "disjoint8 0 8" by (simp add: disjoint8_def)

lemma block_dot_next: "gen (fst (life 0 8 block_dot)) 8 = [0, 0x28, 0x28, 0, 0, 0, 0, 0]"
  unfolding gen_new[OF d08] by (simp add: life_eval block_dot_def)

lemma block_next: "gen (fst (life 0 8 block)) 8 = [0, 0x28, 0x28, 0, 0, 0, 0, 0]"
  unfolding gen_new[OF d08] by (simp add: life_eval block_def)

lemma blinker_next: "gen (fst (life 0 8 blinker)) 8 = [0, 0, 0, 0x64, 0, 0, 0, 0]"
  unfolding gen_new[OF d08] by (simp add: life_eval blinker_def)

lemma block_dot_gen: "gen block_dot 0 = [0, 0x28, 0x28, 0, 0, 0x800, 0, 0]"
  by (simp add: gen_def upt8 block_dot_def)

lemma block_gen: "gen block 0 = [0, 0x28, 0x28, 0, 0, 0, 0, 0]"
  by (simp add: gen_def upt8 block_def)

lemma blinker_gen: "gen blinker 0 = [0, 0, 0x20, 0x20, 0x20, 0, 0, 0]"
  by (simp add: gen_def upt8 blinker_def)

lemma gen_zero:
  assumes "gen m src = replicate 8 0"
  shows "\<forall>k<8. m (src + k) = 0"
proof (intro allI impI)
  fix k :: nat assume k: "k < 8"
  have "gen m src ! k = replicate 8 0 ! k" by (simp only: assms)
  then show "m (src + k) = 0" using k by (simp add: gen_def)
qed

section \<open>Properties of \<open>GetButtons\<close>\<close>

lemma curState_le3: "curState_of p \<le> 3"
proof -
  have "curState_of p = drop_bit 4 p AND 3"
    unfolding curState_of_def by (rule bit_eqI) (auto simp: bit_simps three_mask[symmetric] )
  then show ?thesis by (simp add: word_and_le1)
qed

lemma le3_cases: "x \<le> 3 \<Longrightarrow> x \<in> {0, 1, 2, 3}" for x :: u8
proof -
  assume "x \<le> 3"
  then have "unat x \<le> 3" by (simp add: word_le_nat_alt)
  then have "unat x \<in> {0, 1, 2, 3}" by auto
  then show ?thesis by (auto simp: word_unat_eq_iff)
qed

lemma curState_cases: "curState_of p \<in> {0, 1, 2, 3}"
  by (rule le3_cases[OF curState_le3])

lemma polls_append:
  "polls st (xs @ ys) =
     (case polls st xs of (es, st') \<Rightarrow> (case polls st' ys of (fs, st'') \<Rightarrow> (es @ fs, st'')))"
  by (induction xs arbitrary: st) (auto split: prod.splits)

lemma polls_snoc:
  "polls st (xs @ [p]) =
     (case polls st xs of (es, st') \<Rightarrow> (case GetButtons p st' of (e, st'') \<Rightarrow> (es @ [e], st'')))"
  by (simp add: polls_append split: prod.splits)

lemma thr_unat: "x \<ge> REPEAT_THRESHOLD \<longleftrightarrow> 20 \<le> unat x"
  by (simp add: REPEAT_THRESHOLD_def word_le_nat_alt)

lemma inc_unat: "unat x < 20 \<Longrightarrow> unat (x + 1) = unat x + 1" for x :: u8
  by (simp add: unat_word_ariths)

lemma inc_thr: "unat x < 20 \<Longrightarrow> x + 1 = REPEAT_THRESHOLD \<longleftrightarrow> unat x = 19" for x :: u8
  by (auto simp: REPEAT_THRESHOLD_def word_unat_eq_iff inc_unat)

text \<open>A poll that repeats the latched non-idle pattern below the threshold.\<close>

lemma GetButtons_repeat:
  assumes "curState_of p = prevState st" and "prevState st \<noteq> 3" and "unat (repeat st) < 19"
  shows "GetButtons p st = (0, st\<lparr>repeat := repeat st + 1\<rparr>)"
  using assms by (simp add: GetButtons_def thr_unat inc_thr)

lemma GetButtons_hold:
  assumes "curState_of p = prevState st" and "prevState st \<noteq> 3" and "unat (repeat st) = 19"
  shows "GetButtons p st =
         (BUTTON_HOLD OR NOT (prevState st AND 3), st\<lparr>repeat := repeat st + 1\<rparr>)"
  using assms by (simp add: GetButtons_def thr_unat inc_thr)

lemma GetButtons_change:
  assumes "curState_of p \<noteq> prevState st" and "unat (repeat st) < 20"
  shows "GetButtons p st =
         (NOT (prevState st) AND curState_of p, st\<lparr>prevState := curState_of p\<rparr>)"
  using assms by (simp add: GetButtons_def thr_unat Let_def)

lemma GetButtons_held:
  assumes "20 \<le> unat (repeat st)"
  shows "GetButtons p st =
         (0, st\<lparr>prevState := curState_of p,
                 repeat := (if curState_of p = 3 then 0 else repeat st)\<rparr>)"
  using assms by (simp add: GetButtons_def thr_unat)

lemma polls_repeat:
  assumes "list_all (\<lambda>p. curState_of p = prevState st) ps" and "prevState st \<noteq> 3"
    and "unat (repeat st) + length ps < 20"
  shows "polls st ps = (replicate (length ps) 0, st\<lparr>repeat := repeat st + of_nat (length ps)\<rparr>)"
  using assms
proof (induction ps arbitrary: st)
  case Nil
  show ?case by simp
next
  case (Cons p ps)
  let ?st = "st\<lparr>repeat := repeat st + 1\<rparr>"
  have g: "GetButtons p st = (0, ?st)"
    using Cons.prems by (intro GetButtons_repeat) auto
  have u: "unat (repeat st + 1) = unat (repeat st) + 1"
    using Cons.prems(3) by (intro inc_unat) simp
  have "polls ?st ps = (replicate (length ps) 0, ?st\<lparr>repeat := repeat ?st + of_nat (length ps)\<rparr>)"
    using Cons.prems u by (intro Cons.IH) auto
  then show ?case by (simp add: g add.assoc)
qed

lemma polls_held:
  assumes "20 \<le> unat (repeat st)" and "list_all (\<lambda>p. curState_of p \<noteq> 3) ps"
  shows "fst (polls st ps) = replicate (length ps) 0 \<and> repeat (snd (polls st ps)) = repeat st"
  using assms
proof (induction ps arbitrary: st)
  case Nil
  show ?case by simp
next
  case (Cons p ps)
  let ?st = "st\<lparr>prevState := curState_of p\<rparr>"
  have g: "GetButtons p st = (0, ?st)"
    using Cons.prems by (simp add: GetButtons_held)
  have "fst (polls ?st ps) = replicate (length ps) 0 \<and> repeat (snd (polls ?st ps)) = repeat ?st"
    using Cons.prems by (intro Cons.IH) auto
  then show ?case by (auto simp: g split: prod.splits)
qed

lemma not3_and: "x \<in> {0, 1, 2, 3} \<Longrightarrow> NOT 3 AND x = 0" for x :: u8
  by auto

lemma unat_add_le: "unat (x + of_nat n) \<le> unat x + n" for x :: u8
  by (simp add: unat_word_ariths unat_of_nat)

text \<open>A tap: from the released state, \<open>n > 0\<close> polls of one down pattern, then release.\<close>

lemma polls_tap:
  assumes "prevState st = 3" and "list_all (\<lambda>p. curState_of p = c) downs"
    and "downs \<noteq> []" and "c \<noteq> 3" and "curState_of up = 3"
    and "unat (repeat st) + length downs \<le> 20"
  shows "fst (polls st (downs @ [up])) = replicate (length downs) 0 @ [NOT c AND 3]"
    and "prevState (snd (polls st (downs @ [up]))) = 3"
proof -
  obtain p ps where d: "downs = p # ps" using assms(3) by (cases downs) auto
  have cp: "curState_of p = c" and cps: "list_all (\<lambda>p. curState_of p = c) ps"
    using assms(2) d by auto
  let ?s1 = "st\<lparr>prevState := c\<rparr>"
  have c4: "c \<in> {0, 1, 2, 3}" using curState_cases[of p] cp by simp
  have g1: "GetButtons p st = (0, ?s1)"
    using GetButtons_change[of p st] assms(1,4,6) cp d not3_and[OF c4] by simp
  let ?s2 = "st\<lparr>prevState := c, repeat := repeat st + of_nat (length ps)\<rparr>"
  have g2: "polls ?s1 ps = (replicate (length ps) 0, ?s2)"
    using polls_repeat[of ?s1 ps] cps assms(4,6) d by simp
  have u: "unat (repeat ?s2) < 20"
    using unat_add_le[of "repeat st" "length ps"] assms(6) d by simp
  have g3: "GetButtons up ?s2 = (NOT c AND 3, ?s2\<lparr>prevState := 3\<rparr>)"
    using GetButtons_change[of up ?s2] assms(4,5) u by simp
  show "fst (polls st (downs @ [up])) = replicate (length downs) 0 @ [NOT c AND 3]"
    by (simp add: d g1 polls_snoc g2 g3)
  show "prevState (snd (polls st (downs @ [up]))) = 3"
    by (simp add: d g1 polls_snoc g2 g3)
qed

text \<open>A hold: from the released state with the counter at 0, 21 polls of one down pattern,
  then any polls that do not read 3, then release.\<close>

lemma polls_hold:
  assumes "prevState st = 3" and "repeat st = 0"
    and "list_all (\<lambda>p. curState_of p = c) downs" and "length downs = 21" and "c \<noteq> 3"
    and "list_all (\<lambda>p. curState_of p \<noteq> 3) others" and "curState_of up = 3"
  shows "polls st (downs @ others @ [up]) =
         (replicate 20 0 @ [BUTTON_HOLD OR NOT (c AND 3)] @ replicate (length others) 0 @ [0],
          \<lparr>prevState = 3, repeat = 0\<rparr>)"
proof -
  obtain p ps where d: "downs = p # ps" using assms(4) by (cases downs) auto
  then obtain qs q where ps: "ps = qs @ [q]" using assms(4) by (cases ps rule: rev_cases) auto
  have lq: "length qs = 19" using assms(4) d ps by simp
  have cs: "curState_of p = c" "list_all (\<lambda>p. curState_of p = c) qs" "curState_of q = c"
    using assms(3) d ps by simp_all
  have c4: "c \<in> {0, 1, 2, 3}" using curState_cases[of p] cs(1) by simp
  let ?s1 = "st\<lparr>prevState := c\<rparr>"
  have g1: "GetButtons p st = (0, ?s1)"
    using GetButtons_change[of p st] assms(1,2,5) cs(1) not3_and[OF c4] by simp
  let ?s2 = "st\<lparr>prevState := c, repeat := 19\<rparr>"
  have g2: "polls ?s1 qs = (replicate 19 0, ?s2)"
    using polls_repeat[of ?s1 qs] cs(2) assms(2,5) lq by simp
  let ?s3 = "st\<lparr>prevState := c, repeat := 20\<rparr>"
  have g3: "GetButtons q ?s2 = (BUTTON_HOLD OR NOT (c AND 3), ?s3)"
    using GetButtons_hold[of q ?s2] cs(3) assms(5) by simp
  obtain es s4 where g4: "polls ?s3 others = (es, s4)" by (cases "polls ?s3 others")
  have h4: "es = replicate (length others) 0" "repeat s4 = 20"
    using polls_held[of ?s3 others] assms(6) g4 by simp_all
  have g5: "GetButtons up s4 = (0, \<lparr>prevState = 3, repeat = 0\<rparr>)"
    using GetButtons_held[of s4 up] h4(2) assms(7) by simp
  have r: "replicate 20 (0 :: u8) = 0 # replicate 19 0"
    by (simp add: eval_nat_numeral)
  have "polls st downs = (replicate 20 0 @ [BUTTON_HOLD OR NOT (c AND 3)], ?s3)"
    unfolding d ps r by (simp add: g1 polls_snoc g2 g3)
  then show ?thesis
    by (simp add: polls_append polls_snoc g4 h4(1) g5)
qed

lemmas buttons_eval = GetButtons_def curState_of_def BUTTON_LEFT_def BUTTON_RIGHT_def
  BUTTON_HOLD_def REPEAT_THRESHOLD_def buttons_init_def Let_def

lemma first_poll: "GetButtons 0x30 buttons_init = (0, \<lparr>prevState = 3, repeat = 0\<rparr>)"
  by (simp add: buttons_eval)

lemma cur_left: "curState_of 0x20 = 2" and cur_idle: "curState_of 0x30 = 3"
  by (simp_all add: curState_of_def)

lemma press_bits:
  fixes c :: u8
  assumes "c \<in> {0, 1, 2, 3}" and "c \<noteq> 3"
  shows "NOT c AND 3 \<noteq> 0" and "bit (NOT c AND 3) 0 = (\<not> bit c 0)"
    and "bit (NOT c AND 3) 1 = (\<not> bit c 1)"
  using assms by (auto simp: bit_simps)

section \<open>Properties of the quote picker\<close>

lemma pick_loop_unfold:
  "pick_loop m r = (if bit m (unat r) then Some r else pick_loop m ((r + 1) AND 63))"
  by (subst pick_loop.simps) (simp add: and_exp_eq_0_iff_not_bit)

lemma unat_step: "unat ((r + 1) AND 63) = (unat r + 1) mod 64" for r :: u8
proof -
  have "(r + 1) AND 63 = take_bit 6 (r + 1)"
    by (simp add: take_bit_eq_mask mask_eq_exp_minus_1)
  then have "unat ((r + 1) AND 63) = unat (take_bit 6 (r + 1))"
    by (simp only:)
  also have "\<dots> = take_bit 6 (unat (r + 1))"
    by (rule unsigned_take_bit_eq)
  also have "\<dots> = ((unat r + 1) mod 256) mod 64"
    by (simp add: take_bit_eq_mod unat_word_ariths)
  also have "\<dots> = (unat r + 1) mod 64"
    by (simp add: mod_mod_cancel)
  finally show ?thesis .
qed

lemma unat_and63: "unat (rnd AND 63) < 64" for rnd :: u8
proof -
  have "rnd AND 63 \<le> 63" by (rule word_and_le1)
  then show ?thesis by (simp add: word_le_nat_alt)
qed

lemma pick_loop_found:
  assumes "bit m ((unat r + d) mod 64)" and "unat r < 64"
  shows "\<exists>d'\<le>d. pick_loop m r = Some (of_nat ((unat r + d') mod 64)) \<and>
           bit m ((unat r + d') mod 64) \<and> (\<forall>e<d'. \<not> bit m ((unat r + e) mod 64))"
  using assms
proof (induction d arbitrary: r)
  case 0
  then have "bit m (unat r)" by simp
  then have "pick_loop m r = Some r" by (subst pick_loop_unfold) simp
  then show ?case using 0 by simp
next
  case (Suc d)
  show ?case
  proof (cases "bit m (unat r)")
    case True
    then have "pick_loop m r = Some r" by (subst pick_loop_unfold) simp
    then have "pick_loop m r = Some (of_nat ((unat r + 0) mod 64)) \<and>
           bit m ((unat r + 0) mod 64) \<and> (\<forall>e<0. \<not> bit m ((unat r + e) mod 64))"
      using True Suc.prems(2) by simp
    then show ?thesis by blast
  next
    case False
    let ?r = "(r + 1) AND 63"
    have u: "unat ?r = (unat r + 1) mod 64" by (rule unat_step)
    have lt: "unat ?r < 64" by (simp add: u)
    have sh: "(unat ?r + e) mod 64 = (unat r + Suc e) mod 64" for e
      unfolding u by (simp add: mod_add_left_eq)
    have "bit m ((unat ?r + d) mod 64)" using Suc.prems(1) by (simp only: sh)
    from Suc.IH[OF this lt] obtain d' where d': "d' \<le> d"
      "pick_loop m ?r = Some (of_nat ((unat ?r + d') mod 64))"
      "bit m ((unat ?r + d') mod 64)" "\<forall>e<d'. \<not> bit m ((unat ?r + e) mod 64)"
      by blast
    have step: "pick_loop m r = pick_loop m ?r"
      using False by (subst pick_loop_unfold) simp
    have none: "\<not> bit m ((unat r + e) mod 64)" if "e < Suc d'" for e
    proof (cases e)
      case 0
      then show ?thesis using False Suc.prems(2) by simp
    next
      case (Suc e')
      then have "e' < d'" using that by simp
      then have "\<not> bit m ((unat ?r + e') mod 64)" using d'(4) by blast
      then show ?thesis unfolding sh Suc .
    qed
    have "Suc d' \<le> Suc d \<and> pick_loop m r = Some (of_nat ((unat r + Suc d') mod 64)) \<and>
           bit m ((unat r + Suc d') mod 64) \<and> (\<forall>e<Suc d'. \<not> bit m ((unat r + e) mod 64))"
      using d'(1,2,3) none by (simp only: step sh) simp
    then show ?thesis by blast
  qed
qed

lemma nonzero_bit: "m \<noteq> 0 \<Longrightarrow> \<exists>k<64. bit m k" for m :: u64
proof -
  assume "m \<noteq> 0"
  then obtain k where "bit m k" by (auto simp: bit_eq_iff)
  moreover from this have "k < 64" by (auto dest: bit_imp_le_length)
  ultimately show ?thesis by blast
qed

lemma pick_loop_total:
  assumes "m \<noteq> 0" and "unat r < 64"
  shows "\<exists>d<64. pick_loop m r = Some (of_nat ((unat r + d) mod 64)) \<and>
           bit m ((unat r + d) mod 64) \<and> (\<forall>e<d. \<not> bit m ((unat r + e) mod 64))"
proof -
  obtain k where k: "k < 64" "bit m k" using nonzero_bit[OF assms(1)] by blast
  define d where "d = (k + 64 - unat r) mod 64"
  have "(unat r + d) mod 64 = (unat r + (k + 64 - unat r)) mod 64"
    unfolding d_def by (rule mod_add_right_eq)
  also have "unat r + (k + 64 - unat r) = k + 64" using assms(2) by simp
  also have "(k + 64) mod 64 = k" using k(1) by simp
  finally have "(unat r + d) mod 64 = k" .
  then have "bit m ((unat r + d) mod 64)" using k(2) by simp
  from pick_loop_found[OF this assms(2)] obtain d' where d': "d' \<le> d"
    "pick_loop m r = Some (of_nat ((unat r + d') mod 64))"
    "bit m ((unat r + d') mod 64)" "\<forall>e<d'. \<not> bit m ((unat r + e) mod 64)"
    by blast
  have "d < 64" by (simp add: d_def)
  then have "d' < 64" using d'(1) by simp
  then show ?thesis using d'(2,3,4) by blast
qed

lemma unused_all: "unused (- 1) = {0..<64}"
  by (auto simp: unused_def)

lemma unused_clear: "unused (m AND NOT (2 ^ i)) = unused m - {i}"
  by (auto simp: unused_def bit_simps dest: bit_imp_le_length)

lemma unused_empty: "unused m = {} \<longleftrightarrow> m = 0"
proof
  assume "unused m = {}"
  then have "\<not> bit m k" for k by (auto simp: unused_def)
  then show "m = 0" by (intro bit_eqI) simp
next
  assume "m = 0"
  then show "unused m = {}" by (simp add: unused_def)
qed

lemma finite_unused: "finite (unused m)"
proof -
  have "unused m \<subseteq> {0..<64}"
    by (auto simp: unused_def dest: bit_imp_le_length)
  then show ?thesis by (rule finite_subset) simp
qed

text \<open>One pick: which index, and what it does to the mask.\<close>

lemma hello_world_pick_spec:
  fixes maskus :: u64 and rnd :: u8
  defines "m1 \<equiv> (if maskus = 0 then NOT 0 else maskus)"
  shows "\<exists>d<64. hello_world_pick rnd maskus =
            Some (of_nat ((unat (rnd AND 63) + d) mod 64),
                  m1 AND NOT (push_bit ((unat (rnd AND 63) + d) mod 64) 1)) \<and>
           bit m1 ((unat (rnd AND 63) + d) mod 64) \<and>
           (\<forall>e<d. \<not> bit m1 ((unat (rnd AND 63) + e) mod 64))"
proof -
  have nz: "m1 \<noteq> 0" by (simp add: m1_def)
  from pick_loop_total[OF nz unat_and63[of rnd]] obtain d where d: "d < 64"
    "pick_loop m1 (rnd AND 63) = Some (of_nat ((unat (rnd AND 63) + d) mod 64))"
    "bit m1 ((unat (rnd AND 63) + d) mod 64)"
    "\<forall>e<d. \<not> bit m1 ((unat (rnd AND 63) + e) mod 64)"
    by blast
  have u: "unat (of_nat ((unat (rnd AND 63) + d) mod 64) :: u8) = (unat (rnd AND 63) + d) mod 64"
    by (simp add: unat_of_nat) 
  have "hello_world_pick rnd maskus =
            Some (of_nat ((unat (rnd AND 63) + d) mod 64),
                  m1 AND NOT (push_bit ((unat (rnd AND 63) + d) mod 64) 1))"
    unfolding hello_world_pick_def Let_def m1_def[symmetric] d(2) by (simp only: option.case prod.case u)
  then show ?thesis using d(1,3,4) by blast
qed

lemma hello_world_pick_unused:
  assumes "maskus \<noteq> 0"
  shows "\<exists>i m'. hello_world_pick rnd maskus = Some (i, m') \<and> unat i \<in> unused maskus \<and>
           unused m' = unused maskus - {unat i}"
proof -
  from hello_world_pick_spec[of rnd maskus] assms obtain d where d: "d < 64"
    "hello_world_pick rnd maskus =
            Some (of_nat ((unat (rnd AND 63) + d) mod 64),
                  maskus AND NOT (push_bit ((unat (rnd AND 63) + d) mod 64) 1))"
    "bit maskus ((unat (rnd AND 63) + d) mod 64)"
    by auto
  have u: "unat (of_nat ((unat (rnd AND 63) + d) mod 64) :: u8) = (unat (rnd AND 63) + d) mod 64"
    by (simp add: unat_of_nat)
  have "unat (of_nat ((unat (rnd AND 63) + d) mod 64) :: u8) \<in> unused maskus"
    using d(3) by (simp only: u) (simp add: unused_def)
  moreover have "unused (maskus AND NOT (push_bit ((unat (rnd AND 63) + d) mod 64) 1)) =
        unused maskus - {unat (of_nat ((unat (rnd AND 63) + d) mod 64) :: u8)}"
    by (simp only: u) (simp add: unused_clear)
  ultimately show ?thesis using d(2) by blast
qed

lemma hello_world_pick_reset: "hello_world_pick rnd 0 = hello_world_pick rnd (NOT 0)"
  by (simp add: hello_world_pick_def)

lemma picks_distinct:
  assumes "length rnds \<le> card (unused m)"
  shows "\<exists>js m'. picks m rnds = Some (js, m') \<and> distinct js \<and> unat ` set js \<subseteq> unused m \<and>
           unused m' = unused m - unat ` set js"
  using assms
proof (induction rnds arbitrary: m)
  case Nil
  show ?case by simp
next
  case (Cons rnd rnds)
  have "unused m \<noteq> {}" using Cons.prems by auto
  then have nz: "m \<noteq> 0" by (simp add: unused_empty)
  from hello_world_pick_unused[OF nz, of rnd] obtain i m1 where p:
    "hello_world_pick rnd m = Some (i, m1)" "unat i \<in> unused m" "unused m1 = unused m - {unat i}"
    by blast
  have "card (unused m1) = card (unused m) - 1"
    using p(2,3) by (simp add: finite_unused)
  then have "length rnds \<le> card (unused m1)" using Cons.prems by simp
  from Cons.IH[OF this] obtain js m' where r:
    "picks m1 rnds = Some (js, m')" "distinct js" "unat ` set js \<subseteq> unused m1"
    "unused m' = unused m1 - unat ` set js"
    by blast
  have ni: "i \<notin> set js" using r(3) p(3) by auto
  have "picks m (rnd # rnds) = Some (i # js, m')" by (simp add: p(1) r(1))
  moreover have "distinct (i # js)" using ni r(2) by simp
  moreover have "unat ` set (i # js) \<subseteq> unused m" using p(2,3) r(3) by auto
  moreover have "unused m' = unused m - unat ` set (i # js)" using p(3) r(4) by auto
  ultimately show ?case by blast
qed

lemma picks_length: "picks m rnds = Some (js, m') \<Longrightarrow> length js = length rnds"
  by (induction rnds arbitrary: m js) (auto split: option.splits prod.splits)

lemma picks_reset: "rnds \<noteq> [] \<Longrightarrow> picks 0 rnds = picks (- 1) rnds"
  by (cases rnds) (simp_all add: hello_world_pick_def)

lemma picks_cycle:
  assumes "maskus = 0 \<or> maskus = NOT 0" and "length rnds = 64"
  shows "\<exists>js. picks maskus rnds = Some (js, 0) \<and> distinct js \<and> set js = {i. i < 64}"
proof -
  have ne: "rnds \<noteq> []" using assms(2) by auto
  have e: "picks maskus rnds = picks (- 1) rnds"
    using assms(1) picks_reset[OF ne] by auto
  have "length rnds \<le> card (unused (- 1))" using assms(2) by (simp add: unused_all)
  from picks_distinct[OF this] obtain js m' where r:
    "picks (- 1) rnds = Some (js, m')" "distinct js" "unat ` set js \<subseteq> {0..<64}"
    "unused m' = {0..<64} - unat ` set js"
    unfolding unused_all by blast
  have len: "length js = 64" using picks_length[OF r(1)] assms(2) by simp
  have inj: "inj_on unat (set js)" by (simp add: inj_on_def word_unat_eq_iff)
  have "card (unat ` set js) = 64"
    using len r(2) by (simp add: card_image[OF inj] distinct_card)
  then have full: "unat ` set js = {0..<64}"
    using r(3) by (intro card_subset_eq) simp_all
  then have "unused m' = {}" using r(4) by simp
  then have m0: "m' = 0" by (simp add: unused_empty)
  have "set js = {i. i < 64}"
  proof (intro set_eqI iffI)
    fix i assume "i \<in> set js"
    then have "unat i \<in> {0..<64}" using full by blast
    then show "i \<in> {i. i < 64}" by (simp add: word_less_nat_alt)
  next
    fix i :: u8 assume "i \<in> {i. i < 64}"
    then have "unat i \<in> unat ` set js" using full by (simp add: word_less_nat_alt)
    then obtain x where x: "x \<in> set js" "unat i = unat x" by auto
    then have "i = x" by (simp add: word_unat_eq_iff)
    then show "i \<in> set js" using x(1) by simp
  qed
  then show ?thesis using e r(1,2) m0 by simp
qed

lemma picks_append:
  "picks m (xs @ ys) =
     (case picks m xs of None \<Rightarrow> None
      | Some (js, m') \<Rightarrow>
          (case picks m' ys of None \<Rightarrow> None | Some (ks, m'') \<Rightarrow> Some (js @ ks, m'')))"
  by (induction xs arbitrary: m) (auto split: option.splits prod.splits)

lemma first_cycle:
  "picks 0 (0 # map of_nat [0..<63]) = Some (map of_nat [0..<64], 0)"
  by (simp add: hello_world_pick_def pick_loop.simps upt_rec)

section \<open>Properties of the column scanner\<close>

lemma shift_loop_shift_n: "shift_loop i c s = shift_n (16 - unat i) c s"
proof (induction i c s rule: shift_loop.induct)
  case (1 i c s)
  show ?case
  proof (cases "i < 16")
    case True
    then have u: "unat i < 16" by (simp add: word_less_nat_alt)
    then have "unat (i + 1) = unat i + 1" by (simp add: unat_word_ariths)
    then have n: "16 - unat i = Suc (16 - unat (i + 1))" using u by simp
    have "shift_loop i c s = shift_loop (i + 1) (drop_bit 1 c) (shift_bit c s)"
      using True by (subst shift_loop.simps) simp
    also have "\<dots> = shift_n (16 - unat (i + 1)) (drop_bit 1 c) (shift_bit c s)"
      using True by (rule "1.IH")
    also have "\<dots> = shift_n (16 - unat i) c s"
      by (simp only: n shift_n.simps)
    finally show ?thesis .
  next
    case False
    then have "16 - unat i = 0" by (simp add: word_less_nat_alt)
    moreover have "shift_loop i c s = s"
      using False by (subst shift_loop.simps) simp
    ultimately show ?thesis by simp
  qed
qed

lemma shift_loop_n: "shift_loop 0 c s = shift_n 16 c s"
  by (simp add: shift_loop_shift_n)

lemma bus_events_append:
  "bus_events p (xs @ ys) = bus_events p xs @ bus_events (portc_after p xs) ys"
  by (induction p xs rule: bus_events.induct) simp_all

lemma portc_after_append: "portc_after p (xs @ ys) = portc_after (portc_after p xs) ys"
  by (induction p xs rule: portc_after.induct) simp_all

lemma shift_bit_writes:
  "\<exists>w. writes (shift_bit c s) = writes s @ w \<and>
       bus_events (PORTC s) w = [Shift (\<not> bit c 0)] \<and>
       portc_after (PORTC s) w = PORTC (shift_bit c s) \<and>
       bit (PORTC (shift_bit c s)) 2 = bit (PORTC s) 2 \<and>
       PORTD (shift_bit c s) = PORTD s \<and> col (shift_bit c s) = col s"
proof -
  have b0: "c AND 1 \<noteq> 0 \<longleftrightarrow> bit c 0"
    by (simp add: and_one_eq mod2_eq_if bit_0 flip: mod_2_eq_odd)
  show ?thesis
    by (cases "bit c 0")
       (simp_all add: shift_bit_def SCK_0_def SCK_1_def DATA_0_def DATA_1_def set_PORTC_def
          b0 bit_simps)
qed

lemma shift_n_writes:
  "\<exists>w. writes (shift_n n c s) = writes s @ w \<and>
       bus_events (PORTC s) w = map (\<lambda>k. Shift (\<not> bit c k)) [0..<n] \<and>
       portc_after (PORTC s) w = PORTC (shift_n n c s) \<and>
       bit (PORTC (shift_n n c s)) 2 = bit (PORTC s) 2 \<and>
       PORTD (shift_n n c s) = PORTD s \<and> col (shift_n n c s) = col s"
proof (induction n arbitrary: c s)
  case 0
  show ?case by simp
next
  case (Suc n)
  let ?s1 = "shift_bit c s"
  from shift_bit_writes[of c s] obtain w1 where w1:
    "writes ?s1 = writes s @ w1" "bus_events (PORTC s) w1 = [Shift (\<not> bit c 0)]"
    "portc_after (PORTC s) w1 = PORTC ?s1" "bit (PORTC ?s1) 2 = bit (PORTC s) 2"
    "PORTD ?s1 = PORTD s" "col ?s1 = col s"
    by blast
  from Suc.IH[of "drop_bit 1 c" ?s1] obtain w2 where w2:
    "writes (shift_n n (drop_bit 1 c) ?s1) = writes ?s1 @ w2"
    "bus_events (PORTC ?s1) w2 = map (\<lambda>k. Shift (\<not> bit (drop_bit 1 c) k)) [0..<n]"
    "portc_after (PORTC ?s1) w2 = PORTC (shift_n n (drop_bit 1 c) ?s1)"
    "bit (PORTC (shift_n n (drop_bit 1 c) ?s1)) 2 = bit (PORTC ?s1) 2"
    "PORTD (shift_n n (drop_bit 1 c) ?s1) = PORTD ?s1" "col (shift_n n (drop_bit 1 c) ?s1) = col ?s1"
    by blast
  have m: "map (\<lambda>k. Shift (\<not> bit c k)) [0..<Suc n] =
           Shift (\<not> bit c 0) # map (\<lambda>k. Shift (\<not> bit (drop_bit 1 c) k)) [0..<n]"
    by (simp only: upt_conv_Cons[of 0 "Suc n"] map_Suc_upt[symmetric] zero_less_Suc if_True
          list.map map_map o_def bit_drop_bit_eq) simp
  have "writes (shift_n (Suc n) c s) = writes s @ (w1 @ w2)"
    by (simp only: shift_n.simps w2(1) w1(1) append_assoc)
  moreover have "bus_events (PORTC s) (w1 @ w2) = map (\<lambda>k. Shift (\<not> bit c k)) [0..<Suc n]"
    by (simp only: bus_events_append w1(2,3) w2(2) m) simp
  moreover have "portc_after (PORTC s) (w1 @ w2) = PORTC (shift_n (Suc n) c s)"
    by (simp only: shift_n.simps portc_after_append w1(3) w2(3))
  moreover have "bit (PORTC (shift_n (Suc n) c s)) 2 = bit (PORTC s) 2"
    by (simp only: shift_n.simps w1(4) w2(4))
  moreover have "PORTD (shift_n (Suc n) c s) = PORTD s" "col (shift_n (Suc n) c s) = col s"
    by (simp_all only: shift_n.simps w1(5,6) w2(5,6))
  ultimately show ?case by blast
qed

lemma fb_off_mod: "unat ((fb_base + c) AND 0x0F) = (unat fb_base + unat c) mod 16" for fb_base c :: u8
proof -
  have "(fb_base + c) AND 0x0F = take_bit 4 (fb_base + c)"
    by (simp add: take_bit_eq_mask mask_eq_exp_minus_1)
  then have "unat ((fb_base + c) AND 0x0F) = unat (take_bit 4 (fb_base + c))"
    by (simp only:)
  also have "\<dots> = take_bit 4 (unat (fb_base + c))"
    by (rule unsigned_take_bit_eq)
  also have "\<dots> = ((unat fb_base + unat c) mod 256) mod 16"
    by (simp add: take_bit_eq_mod unat_word_ariths)
  also have "\<dots> = (unat fb_base + unat c) mod 16"
    by (simp add: mod_mod_cancel)
  finally show ?thesis .
qed

lemma scanner_tick_events:
  "bus_events (PORTC s) (drop (length (writes s)) (writes (TIMER0_COMPA fb_base framebuf s))) =
     map (\<lambda>b. Shift (\<not> b)) (lsb_first (framebuf ((unat fb_base + unat (col s)) mod 16))) @
     [Column 0, Latch, Column (drop_bit (unat (col s)) 0x80)]"
proof -
  define c where "c = framebuf ((unat fb_base + unat (col s)) mod 16)"
  let ?s1 = "LATCH_0 s"
  have s1: "writes ?s1 = writes s @ [WriteC (PORTC s AND NOT 4)]" "PORTC ?s1 = PORTC s AND NOT 4"
    "col ?s1 = col s"
    by (simp_all add: LATCH_0_def set_PORTC_def)
  let ?s2 = "shift_n 16 c ?s1"
  from shift_n_writes[of 16 c ?s1] obtain w where w:
    "writes ?s2 = writes ?s1 @ w"
    "bus_events (PORTC ?s1) w = map (\<lambda>k. Shift (\<not> bit c k)) [0..<16]"
    "portc_after (PORTC ?s1) w = PORTC ?s2" "bit (PORTC ?s2) 2 = bit (PORTC ?s1) 2"
    by blast
  have l2: "\<not> bit (PORTC ?s2) 2" by (simp add: w(4) s1(2) bit_simps)
  have t: "writes (TIMER0_COMPA fb_base framebuf s) =
           writes s @ [WriteC (PORTC s AND NOT 4)] @ w @
             [WriteC (PORTC ?s2 AND NOT 2), WriteD 0, WriteC ((PORTC ?s2 AND NOT 2) OR 4),
              WriteD (drop_bit (unat (col s)) 0x80)]"
    by (simp add: TIMER0_COMPA_def Let_def fb_off_mod c_def[symmetric] shift_loop_n
          SCK_0_def LATCH_1_def set_PORTC_def set_PORTD_def w(1) s1)
  let ?rest = "[WriteC (PORTC ?s2 AND NOT 2), WriteD 0, WriteC ((PORTC ?s2 AND NOT 2) OR 4),
              WriteD (drop_bit (unat (col s)) 0x80)]"
  have d: "drop (length (writes s)) (writes (TIMER0_COMPA fb_base framebuf s)) =
           [WriteC (PORTC s AND NOT 4)] @ (w @ ?rest)"
    by (simp only: t append_eq_conv_conj drop_append length_drop) simp
  have e1: "bus_events (PORTC s) [WriteC (PORTC s AND NOT 4)] = []"
    "portc_after (PORTC s) [WriteC (PORTC s AND NOT 4)] = PORTC s AND NOT 4"
    by (simp_all add: bit_simps)
  have e3: "bus_events (PORTC ?s2) ?rest =
            [Column 0, Latch, Column (drop_bit (unat (col s)) 0x80)]"
    using l2 by (simp add: bit_simps)
  have "bus_events (PORTC s) ([WriteC (PORTC s AND NOT 4)] @ (w @ ?rest)) =
        map (\<lambda>k. Shift (\<not> bit c k)) [0..<16] @
        [Column 0, Latch, Column (drop_bit (unat (col s)) 0x80)]"
    by (simp only: bus_events_append e1 w(2,3)[unfolded s1(2)] e3 append_Nil)
  then show ?thesis
    unfolding d c_def[symmetric] lsb_first_def by (simp add: o_def)
qed

lemma shifted_append: "shifted (xs @ ys) = shifted xs @ shifted ys"
  by (induction xs rule: shifted.induct) simp_all

lemma shifted_map: "shifted (map (\<lambda>b. Shift (f b)) bs) = map f bs"
  by (induction bs) simp_all

lemma lsb_first_1: "lsb_first 1 = True # replicate 15 False"
  by (simp add: lsb_first_def upt_rec bit_1_iff eval_nat_numeral)

lemma msb_first_1: "msb_first 1 = replicate 15 False @ [True]"
  by (simp add: msb_first_def upt_rec bit_1_iff eval_nat_numeral)

lemma scanner_tick_col: "col (TIMER0_COMPA fb_base framebuf s) = (col s + 1) AND 7"
  by (simp add: TIMER0_COMPA_def Let_def)

section \<open>Claims\<close>

text \<open>
  C1. For every source generation and every cell of the 8x8 torus, \<open>life\<close> leaves in the
  destination generation the cell value given by the rule: with the live neighbours counted
  among the 8 toroidal neighbours (any non-zero 2-bit value counts as one), a live cell
  survives exactly with 2 or 3 neighbours, a surviving green cell (1) becomes orange (3) and
  any other surviving cell becomes red (2), and a dead cell becomes green (1) exactly with 3
  neighbours and stays dead otherwise. The destination generation does not overlap the
  source generation, as in every call the program makes.
\<close>

theorem life_cell_rule:
  assumes "disjoint8 src dst" and "c < 8" and "r < 8"
  shows "cell (fst (life src dst m)) dst c r =
         life_rule (cell m src c r) (live_neighbours m src c r)"
  using assms by (rule life_cell_spec)

theorem life_cell_rule_witness:
  "disjoint8 0 8 \<and> (2 :: nat) < 8 \<and> (1 :: nat) < 8 \<and>
   cell glider 0 2 1 = 0 \<and> live_neighbours glider 0 2 1 = 3 \<and>
   cell (fst (life 0 8 glider)) 8 2 1 = 1"
proof -
  have d: "disjoint8 0 8" by (simp add: disjoint8_def)
  have c: "cell glider 0 2 1 = 0" by (simp add: cell_def glider_def)
  have n: "live_neighbours glider 0 2 1 = 3"
    by (simp add: live_neighbours_def torus_neighbours_def cell_def glider_def)
  show ?thesis
    using life_cell_rule [OF d, of 2 1 glider] d c n by (simp add: life_rule_def)
qed

text \<open>
  C2, as the claim states it, fails: for the block with a lone cell in column 5 the new
  generation is the block alone, so column 5 differs from the source and only 6 columns are
  dead, yet \<open>life\<close> returns STEADY where the claim says ACTIVE.
\<close>

theorem life_classification_counterexample:
  "snd (life 0 8 block_dot) \<noteq> spec_classify (gen block_dot 0) (gen (fst (life 0 8 block_dot)) 8)"
  unfolding life_ret[OF d08] block_dot_next block_dot_gen
  by (simp add: life_classify_def spec_classify_def DEAD_def STEADY_def ACTIVE_def)

text \<open>
  C2, amended. \<open>life\<close> returns DEAD if every column of the new generation is zero; STEADY
  if every column of the new generation is either zero or identical to the source column, or
  if 7 or more columns of the new generation are zero (so exactly 7 dead columns give STEADY
  whatever the 8th does); ACTIVE otherwise. Applied to an all-dead board it leaves an all-dead
  board and returns DEAD.
\<close>

theorem life_classification:
  assumes "disjoint8 src dst"
  shows "snd (life src dst m) = life_classify (gen m src) (gen (fst (life src dst m)) dst) \<and>
         (gen m src = replicate 8 0 \<longrightarrow>
            gen (fst (life src dst m)) dst = replicate 8 0 \<and> snd (life src dst m) = DEAD)"
  using life_ret[OF assms] life_all_dead[OF assms] gen_zero by blast

theorem life_classification_witness:
  "disjoint8 0 8 \<and>
   gen blinker 0 = [0, 0, 0x20, 0x20, 0x20, 0, 0, 0] \<and>
   gen (fst (life 0 8 blinker)) 8 = [0, 0, 0, 0x64, 0, 0, 0, 0] \<and>
   snd (life 0 8 blinker) = STEADY \<and>
   gen zero_mem 0 = replicate 8 0 \<and>
   gen (fst (life 0 8 zero_mem)) 8 = replicate 8 0 \<and> snd (life 0 8 zero_mem) = DEAD"
proof -
  have z: "gen zero_mem 0 = replicate 8 0"
    by (simp add: gen_def zero_mem_def map_replicate_const)
  have "snd (life 0 8 blinker) = STEADY"
    using life_classification[OF d08, of blinker]
    unfolding blinker_next blinker_gen by (simp add: life_classify_def)
  moreover have "gen (fst (life 0 8 zero_mem)) 8 = replicate 8 0 \<and> snd (life 0 8 zero_mem) = DEAD"
    using life_classification[OF d08, of zero_mem] z by blast
  ultimately show ?thesis
    using z d08 blinker_next blinker_gen by simp
qed

text \<open>
  C3, as the claim states it, fails: the next generation of the empty board is the empty
  board, bit for bit, and the classification is DEAD, not STEADY.
\<close>

theorem life_fixed_point_counterexample:
  "gen (fst (life 0 8 zero_mem)) 8 = gen zero_mem 0 \<and> snd (life 0 8 zero_mem) \<noteq> STEADY"
proof -
  have z: "\<forall>k<8. zero_mem (0 + k) = 0" by (simp add: zero_mem_def)
  have "gen zero_mem 0 = replicate 8 0"
    by (simp add: gen_def zero_mem_def map_replicate_const)
  then show ?thesis
    using life_all_dead[OF d08 z] by (simp add: DEAD_def STEADY_def)
qed

text \<open>
  C3, amended. For every board whose next generation is bit-for-bit equal to it, the
  returned classification is STEADY, unless the board is entirely dead, in which case it is
  DEAD.
\<close>

theorem life_fixed_point:
  assumes "disjoint8 src dst" and "gen (fst (life src dst m)) dst = gen m src"
  shows "snd (life src dst m) = (if list_all (\<lambda>w. w = 0) (gen m src) then DEAD else STEADY)"
  unfolding life_ret[OF assms(1)] assms(2)
  by (simp add: life_classify_def list_all2_same)

theorem life_fixed_point_witness:
  "disjoint8 0 8 \<and> gen (fst (life 0 8 block)) 8 = gen block 0 \<and>
   \<not> list_all (\<lambda>w. w = 0) (gen block 0) \<and> snd (life 0 8 block) = STEADY"
proof -
  have e: "gen (fst (life 0 8 block)) 8 = gen block 0" by (simp only: block_next block_gen)
  show ?thesis
    using life_fixed_point[OF d08 e] d08 e by (simp add: block_gen)
qed

text \<open>
  C9. \<open>life(src, dst)\<close> writes only the 8 destination words: every other word of the
  memory is unchanged; when the two generations do not overlap, the source generation is
  unchanged; and in the call \<open>life(&framebuf[fb_base], &framebuf[fb_base ^ 8])\<close> of
  \<open>do_life\<close> the 8 visible columns starting at \<open>fb_base\<close> are unchanged.
\<close>

theorem life_writes_only_dst:
  "(\<forall>a. a \<notin> {dst ..< dst + 8} \<longrightarrow> fst (life src dst m) a = m a) \<and>
   (disjoint8 src dst \<longrightarrow> (\<forall>k<8. fst (life src dst m) (src + k) = m (src + k))) \<and>
   (\<forall>k<8. fst (life (unat (fb_base :: u8)) (unat (fb_base XOR 8)) m) (unat fb_base + k)
             = m (unat fb_base + k))"
proof (intro conjI allI impI)
  fix a assume "a \<notin> {dst ..< dst + 8}"
  then show "fst (life src dst m) a = m a" by (rule life_frame)
next
  fix k :: nat assume "disjoint8 src dst" and "k < 8"
  then show "fst (life src dst m) (src + k) = m (src + k)" by (rule life_src_unchanged)
next
  fix k :: nat assume "k < 8"
  then show "fst (life (unat fb_base) (unat (fb_base XOR 8)) m) (unat fb_base + k)
             = m (unat fb_base + k)" by (rule life_src_unchanged[OF flip_disjoint])
qed

theorem life_writes_only_dst_witness:
  "(3::nat) \<notin> {8 ..< 8 + 8} \<and> fst (life 0 8 glider) 3 = 0xA8 \<and>
   disjoint8 0 8 \<and> (2::nat) < 8 \<and> fst (life 0 8 glider) (0 + 2) = 0x80 \<and>
   fst (life (unat (8 :: u8)) (unat ((8 :: u8) XOR 8)) glider) (unat (8 :: u8) + 2) = 0"
proof -
  note t = life_writes_only_dst[of 8 0 glider 8]
  have a: "fst (life 0 8 glider) 3 = glider 3"
    using t by (elim conjE allE[of _ 3]) simp
  have b: "fst (life 0 8 glider) (0 + 2) = glider (0 + 2)"
    using t d08 by (elim conjE allE[of _ 2]) simp
  have c: "fst (life (unat (8 :: u8)) (unat ((8 :: u8) XOR 8)) glider) (unat (8 :: u8) + 2)
           = glider (unat (8 :: u8) + 2)"
    using t by (elim conjE allE[of _ 2]) simp
  show ?thesis
    using a b c d08 by (simp add: glider_def)
qed

text \<open>
  C4, as the claim states it, fails: after power-up and one idle poll, the poll at the
  transition into the down state (left button line low) returns no event, and the release
  poll returns the press event \<open>BUTTON_LEFT\<close>.
\<close>

theorem tap_press_counterexample:
  "fst (polls buttons_init [0x30, 0x20, 0x30]) = [0, 0, BUTTON_LEFT]"
proof -
  have "fst (polls \<lparr>prevState = 3, repeat = 0\<rparr> ([0x20] @ [0x30])) = replicate (length [0x20 :: u8]) 0 @ [NOT 2 AND 3]"
    by (rule polls_tap) (simp_all add: cur_left cur_idle)
  then show ?thesis
    by (auto simp: first_poll BUTTON_LEFT_def split: prod.splits)
qed

text \<open>
  C4, amended. For every single tap (from the released pattern 3 the lines read one
  button-down pattern \<open>c\<close> on \<open>n > 0\<close> polls and then 3 again, with the repeat counter plus
  \<open>n\<close> not above the hold threshold), \<open>GetButtons\<close> returns no event on the poll at the
  transition into the down state nor while the button is down, and exactly one press event,
  on the release poll: complement-of-previous AND current, whose bits 0 and 1 are set
  exactly for the buttons that were down; the new pattern is stored as previous.
\<close>

theorem tap_press_on_release:
  assumes "prevState st = 3" and "list_all (\<lambda>p. curState_of p = c) downs"
    and "downs \<noteq> []" and "c \<noteq> 3" and "curState_of up = 3"
    and "unat (repeat st) + length downs \<le> unat REPEAT_THRESHOLD"
  shows "fst (polls st (downs @ [up])) = replicate (length downs) 0 @ [NOT c AND 3] \<and>
         NOT c AND 3 \<noteq> 0 \<and>
         bit (NOT c AND 3) 0 = (\<not> bit c 0) \<and> bit (NOT c AND 3) 1 = (\<not> bit c 1) \<and>
         prevState (snd (polls st (downs @ [up]))) = 3"
proof -
  obtain p where "p \<in> set downs" using assms(3) by (cases downs) auto
  then have "curState_of p = c" using assms(2) by (simp add: list_all_iff)
  then have c4: "c \<in> {0, 1, 2, 3}" using curState_cases[of p] by simp
  have b: "unat (repeat st) + length downs \<le> 20"
    using assms(6) by (simp add: REPEAT_THRESHOLD_def)
  show ?thesis
    using polls_tap[OF assms(1,2,3,4,5) b] press_bits[OF c4 assms(4)] by simp
qed

theorem tap_press_on_release_witness:
  "prevState \<lparr>prevState = 3, repeat = 0\<rparr> = 3 \<and>
   list_all (\<lambda>p. curState_of p = 2) [0x20, 0x20, 0x20] \<and>
   [0x20, 0x20, 0x20 :: u8] \<noteq> [] \<and> (2 :: u8) \<noteq> 3 \<and> curState_of 0x30 = 3 \<and>
   unat (repeat \<lparr>prevState = 3, repeat = 0\<rparr>) + length [0x20, 0x20, 0x20 :: u8]
     \<le> unat REPEAT_THRESHOLD \<and>
   fst (polls \<lparr>prevState = 3, repeat = 0\<rparr> ([0x20, 0x20, 0x20] @ [0x30])) = [0, 0, 0, BUTTON_LEFT]"
proof -
  have h: "list_all (\<lambda>p. curState_of p = 2) [0x20, 0x20, 0x20]" "curState_of 0x30 = 3"
    "unat (repeat \<lparr>prevState = 3, repeat = 0\<rparr>) + length [0x20, 0x20, 0x20 :: u8]
       \<le> unat REPEAT_THRESHOLD"
    by (simp_all add: curState_of_def REPEAT_THRESHOLD_def)
  show ?thesis
    using tap_press_on_release[of "\<lparr>prevState = 3, repeat = 0\<rparr>" 2 "[0x20, 0x20, 0x20]" "0x30"] h
    by (simp add: BUTTON_LEFT_def)
qed

text \<open>
  C7, as the claim states it, fails: from the released state with the counter at 0, the
  pattern 2 read on 20 consecutive polls (the threshold) gives no hold event, and the release
  that follows registers a press.
\<close>

theorem hold_threshold_counterexample:
  "fst (polls buttons_init ([0x30] @ replicate 20 0x20 @ [0x30])) = replicate 21 0 @ [BUTTON_LEFT]"
proof -
  have "fst (polls \<lparr>prevState = 3, repeat = 0\<rparr> (replicate 20 0x20 @ [0x30])) =
        replicate (length (replicate 20 (0x20 :: u8))) 0 @ [NOT 2 AND 3]"
    by (rule polls_tap) (simp_all add: cur_left cur_idle list_all_iff)
  moreover have "replicate 21 (0 :: u8) = 0 # replicate 20 0" by (simp add: eval_nat_numeral)
  ultimately show ?thesis
    by (auto simp: first_poll BUTTON_LEFT_def split: prod.splits)
qed

text \<open>
  C7, amended. From the released state with the repeat counter at 0, when the same non-idle
  pattern is read on threshold + 1 consecutive polls (the first records it, the next
  threshold polls repeat it), \<open>GetButtons\<close> returns exactly one hold event, on the last of
  them, tagged with the buttons that are down; afterwards it returns no event on any poll
  until the lines read 3, and that poll returns no event either, resets the repeat counter
  and leaves the machine in the released state.
\<close>

theorem hold_once_until_release:
  assumes "prevState st = 3" and "repeat st = 0"
    and "list_all (\<lambda>p. curState_of p = c) downs"
    and "length downs = unat REPEAT_THRESHOLD + 1" and "c \<noteq> 3"
    and "list_all (\<lambda>p. curState_of p \<noteq> 3) others" and "curState_of up = 3"
  shows "polls st (downs @ others @ [up]) =
         (replicate (unat REPEAT_THRESHOLD) 0 @ [BUTTON_HOLD OR NOT (c AND 3)]
            @ replicate (length others) 0 @ [0],
          \<lparr>prevState = 3, repeat = 0\<rparr>)"
proof -
  have l: "length downs = 21" using assms(4) by (simp add: REPEAT_THRESHOLD_def)
  show ?thesis
    using polls_hold[OF assms(1,2,3) l assms(5,6,7)] by (simp add: REPEAT_THRESHOLD_def)
qed

theorem hold_once_until_release_witness:
  "prevState \<lparr>prevState = 3, repeat = 0\<rparr> = 3 \<and> repeat \<lparr>prevState = 3, repeat = 0\<rparr> = 0 \<and>
   list_all (\<lambda>p. curState_of p = 2) (replicate 21 0x20) \<and>
   length (replicate 21 (0x20 :: u8)) = unat REPEAT_THRESHOLD + 1 \<and> (2 :: u8) \<noteq> 3 \<and>
   list_all (\<lambda>p. curState_of p \<noteq> 3) [0x00, 0x10] \<and> curState_of 0x30 = 3 \<and>
   polls \<lparr>prevState = 3, repeat = 0\<rparr> (replicate 21 0x20 @ [0x00, 0x10] @ [0x30]) =
     (replicate 20 0 @ [0xFD] @ [0, 0] @ [0], \<lparr>prevState = 3, repeat = 0\<rparr>)"
proof -
  have h: "list_all (\<lambda>p. curState_of p = 2) (replicate 21 0x20)"
    "length (replicate 21 (0x20 :: u8)) = unat REPEAT_THRESHOLD + 1"
    "list_all (\<lambda>p. curState_of p \<noteq> 3) [0x00, 0x10]" "curState_of 0x30 = 3"
    by (simp_all add: curState_of_def REPEAT_THRESHOLD_def list_all_iff)
  show ?thesis
    using hold_once_until_release[of "\<lparr>prevState = 3, repeat = 0\<rparr>" 2 "replicate 21 0x20"
        "[0x00, 0x10]" "0x30"] h
    by (simp add: BUTTON_HOLD_def REPEAT_THRESHOLD_def)
qed

text \<open>
  C10. Every event returned by \<open>GetButtons\<close> with \<open>BUTTON_HOLD\<close> set equals
  \<open>BUTTON_HOLD | ~(curState & 3)\<close> over 8 bits: bits 2, 3, 5, 6 and 7 are set as well, and
  the \<open>BUTTON_LEFT\<close> and \<open>BUTTON_RIGHT\<close> bits are set exactly for the buttons whose line reads
  low, so that \<open>buttons & BUTTON_LEFT\<close> is non-zero for a left-button hold.
\<close>

theorem hold_event_value:
  assumes "fst (GetButtons p st) AND BUTTON_HOLD \<noteq> 0"
  shows "fst (GetButtons p st) = BUTTON_HOLD OR NOT (curState_of p AND 3) \<and>
         fst (GetButtons p st) AND 0xEC = 0xEC \<and>
         (fst (GetButtons p st) AND BUTTON_LEFT \<noteq> 0) = (\<not> bit (curState_of p) 0) \<and>
         (fst (GetButtons p st) AND BUTTON_RIGHT \<noteq> 0) = (\<not> bit (curState_of p) 1) \<and>
         curState_of p = prevState st \<and> curState_of p \<noteq> 3 \<and>
         repeat (snd (GetButtons p st)) = REPEAT_THRESHOLD"
proof -
  have c: "curState_of p \<in> {0, 1, 2, 3}" by (rule curState_cases)
  have z: "(NOT x AND y) AND BUTTON_HOLD = 0" if "y \<in> {0, 1, 2, 3}" for x y :: u8
    using that by (auto simp: BUTTON_HOLD_def and.assoc)
  show ?thesis
    using assms c z[OF c, of "prevState st"]
    by (auto simp: GetButtons_def Let_def BUTTON_HOLD_def BUTTON_LEFT_def BUTTON_RIGHT_def
        split: if_splits)
qed

theorem hold_event_value_witness:
  "fst (GetButtons 0x20 \<lparr>prevState = 2, repeat = 19\<rparr>) AND BUTTON_HOLD \<noteq> 0 \<and>
   fst (GetButtons 0x20 \<lparr>prevState = 2, repeat = 19\<rparr>) = 0xFD \<and>
   fst (GetButtons 0x20 \<lparr>prevState = 2, repeat = 19\<rparr>) AND BUTTON_LEFT \<noteq> 0"
proof -
  have h: "fst (GetButtons 0x20 \<lparr>prevState = 2, repeat = 19\<rparr>) AND BUTTON_HOLD \<noteq> 0"
    by (simp add: buttons_eval)
  show ?thesis
    using hold_event_value[OF h] h by (simp add: curState_of_def BUTTON_HOLD_def BUTTON_LEFT_def)
qed

text \<open>
  C8, as the claim states it ("across any 64 consecutive calls"), fails: after power-up,
  with the random bytes 0, 0, 1, 2, ..., 62, 1, the 65 calls select 0, 1, ..., 63, 1, so the
  64 consecutive calls from the second to the last select index 1 twice and index 0 not at
  all.
\<close>

theorem quote_window_counterexample:
  "map_option fst (picks 0 ((0 # map of_nat [0..<63]) @ [1])) = Some (map of_nat [0..<64] @ [1]) \<and>
   \<not> distinct (drop 1 (map of_nat [0..<64] @ [1 :: u8]))"
proof -
  have "picks 0 [1] = Some ([1], NOT 2)"
    by (simp add: hello_world_pick_def pick_loop.simps)
  then have "map_option fst (picks 0 ((0 # map of_nat [0..<63]) @ [1])) =
             Some (map of_nat [0..<64] @ [1])"
    unfolding picks_append first_cycle by simp
  moreover have "\<not> distinct (drop 1 (map of_nat [0..<64] @ [1 :: u8]))"
    by (simp add: upt_rec)
  ultimately show ?thesis by blast
qed

text \<open>
  C8, amended. Every call returns an index in [0,64) whose bit is set in the mask (reset to
  all-ones first when it is zero): the random index itself or, when that is used, the next
  unused one in circular order; and it clears that bit. Across the 64 consecutive calls of a
  cycle (starting with the mask zero, as at power-up, or all-ones), each index in [0,64) is
  selected exactly once, whatever the random bytes, and the mask is zero afterwards.
\<close>

theorem quote_picker_cycle:
  "(\<exists>d<64. hello_world_pick rnd maskus =
            Some (of_nat ((unat (rnd AND 63) + d) mod 64),
                  (if maskus = 0 then NOT 0 else maskus)
                    AND NOT (push_bit ((unat (rnd AND 63) + d) mod 64) 1)) \<and>
           bit (if maskus = 0 then NOT 0 else maskus) ((unat (rnd AND 63) + d) mod 64) \<and>
           (\<forall>e<d. \<not> bit (if maskus = 0 then NOT 0 else maskus) ((unat (rnd AND 63) + e) mod 64))) \<and>
   ((maskus = 0 \<or> maskus = NOT 0) \<and> length rnds = 64 \<longrightarrow>
      (\<exists>js. picks maskus rnds = Some (js, 0) \<and> distinct js \<and> set js = {i. i < 64}))"
  using hello_world_pick_spec[of rnd maskus] picks_cycle[of maskus rnds] by blast

theorem quote_picker_cycle_witness:
  "length (0 # map of_nat [0..<63] :: u8 list) = 64 \<and>
   picks 0 (0 # map of_nat [0..<63]) = Some (map of_nat [0..<64], 0) \<and>
   distinct (map of_nat [0..<64] :: u8 list) \<and>
   set (map of_nat [0..<64] :: u8 list) = {i. i < 64}"
proof -
  have l: "length (0 # map of_nat [0..<63] :: u8 list) = 64" by simp
  from quote_picker_cycle[of 0 0 "0 # map of_nat [0..<63]"] l
  obtain js where "picks 0 (0 # map of_nat [0..<63]) = Some (js, 0)" "distinct js"
    "set js = {i. i < 64}" by blast
  then show ?thesis using l by (simp only: first_cycle) simp
qed

text \<open>
  C5, as the claim states it, fails: with only the least significant bit of the column word
  set, the first level clocked out differs from the other fifteen, so the sequence is neither
  the bits of the word most-significant-first nor their complement.
\<close>

theorem scanner_msb_first_counterexample:
  "shifted (bus_events (PORTC scan0) (writes (TIMER0_COMPA 0 one_lsb scan0))) =
     False # replicate 15 True \<and>
   msb_first (one_lsb 0) = replicate 15 False @ [True] \<and>
   shifted (bus_events (PORTC scan0) (writes (TIMER0_COMPA 0 one_lsb scan0))) \<noteq>
     msb_first (one_lsb 0) \<and>
   shifted (bus_events (PORTC scan0) (writes (TIMER0_COMPA 0 one_lsb scan0))) \<noteq>
     map Not (msb_first (one_lsb 0))"
proof -
  have w: "writes scan0 = []" "col scan0 = 0" by (simp_all add: scan0_def)
  have o: "one_lsb 0 = 1" by (simp add: one_lsb_def)
  have "shifted (bus_events (PORTC scan0) (writes (TIMER0_COMPA 0 one_lsb scan0))) =
        map Not (lsb_first 1)"
    using scanner_tick_events[of scan0 0 one_lsb]
    by (simp add: w o shifted_append shifted_map)
  then have a: "shifted (bus_events (PORTC scan0) (writes (TIMER0_COMPA 0 one_lsb scan0))) =
        False # replicate 15 True"
    by (simp add: lsb_first_1)
  show ?thesis
    unfolding a o msb_first_1 by (simp add: eval_nat_numeral)
qed

text \<open>
  C5, amended. On every refresh tick the interrupt serializes the bits of exactly one column
  word of the frame store, the word at index (fb_base + col) mod 16, to the shift-register
  chain least-significant-bit-first, each bit as its complement (data low for a set bit);
  the register is latched only after the 16 bits have been clocked out, with the column
  drivers off, then the one driver line \<open>0x80 >> col\<close> is turned on and \<open>col\<close> advances
  modulo 8.
\<close>

theorem scanner_tick:
  "bus_events (PORTC s) (drop (length (writes s)) (writes (TIMER0_COMPA fb_base framebuf s))) =
     map (\<lambda>b. Shift (\<not> b)) (lsb_first (framebuf ((unat fb_base + unat (col s)) mod 16))) @
     [Column 0, Latch, Column (drop_bit (unat (col s)) 0x80)] \<and>
   col (TIMER0_COMPA fb_base framebuf s) = (col s + 1) AND 7"
  using scanner_tick_events scanner_tick_col by blast

theorem scanner_tick_witness:
  "bus_events (PORTC scan0) (drop (length (writes scan0)) (writes (TIMER0_COMPA 0 one_lsb scan0))) =
     map Shift (False # replicate 15 True) @ [Column 0, Latch, Column 0x80] \<and>
   col (TIMER0_COMPA 0 one_lsb scan0) = 1"
  using scanner_tick[of scan0 0 one_lsb]
  by (simp add: scan0_def one_lsb_def lsb_first_1)

end
